theory Spec2Isabelle
  imports Complex_Main "HOL-Library.Word" "HOL-Library.Log_Nat"
begin

unbundle bit_operations_syntax

section \<open>The RATTA\_RLE decoder (rle.go)\<close>

text \<open>
  Bytes are 8-bit words. In the decoder Go's \<open>int\<close> is modelled by \<open>int\<close>: positions,
  lengths and the product \<open>width * height\<close> stay far below 2^63 for the rasters of this
  program, so no wrap-around is written out here (it is in the fill sinks below).

  \<open>decodeRLE\<close> reports its output through the callback \<open>emit(pos, length, colorCode)\<close>.
  The model returns the list of the calls of \<open>emit\<close>, in the order the source makes them.
\<close>

type_synonym byte = "8 word"

type_synonym run = "int \<times> int \<times> byte"

text \<open>
  The three variables \<open>hasHolder\<close>, \<open>heldColor\<close>, \<open>heldLength\<close> of the source:
  \<open>None\<close> is \<open>hasHolder = false\<close>, \<open>Some (heldColor, heldLength)\<close> is
  \<open>hasHolder = true\<close>. The source reads the two held bytes only under \<open>hasHolder\<close>.
\<close>

type_synonym holder = "(byte \<times> byte) option"

text \<open>Lines 141 to 148: clamp the run, emit it unless it is transparent, advance.\<close>

definition emit_clamped :: "int \<Rightarrow> int \<Rightarrow> int \<Rightarrow> byte \<Rightarrow> run list \<times> int" where
  "emit_clamped expected pos len colorCode =
     (let length' = (if pos + len > expected then expected - pos else len)
      in ((if colorCode \<noteq> 0x62 then [(pos, length', colorCode)] else []), pos + length'))"

text \<open>
  The body of the \<open>for\<close> loop (lines 108 to 148) for one pair
  \<open>(colorCode, lengthCode)\<close>: the runs emitted, the new \<open>pos\<close> and the new holder.
\<close>

definition decodeRLE_step ::
  "int \<Rightarrow> int \<Rightarrow> holder \<Rightarrow> byte \<Rightarrow> byte \<Rightarrow> run list \<times> int \<times> holder" where
  "decodeRLE_step expected pos h colorCode lengthCode =
     (case h of
        Some (prevColor, prevLength) \<Rightarrow>
          if colorCode = prevColor then
            (let len = 1 + uint lengthCode + push_bit 7 (uint (prevLength AND 0x7f) + 1);
                 (es, pos') = emit_clamped expected pos len colorCode
             in (es, pos', None))
          else
            (let heldLen0 = push_bit 7 (uint (prevLength AND 0x7f) + 1);
                 heldLen = (if pos + heldLen0 > expected then expected - pos else heldLen0);
                 flushed = (if prevColor \<noteq> 0x62 then [(pos, heldLen, prevColor)] else []);
                 pos1 = pos + heldLen;
                 len = uint lengthCode + 1;
                 (es, pos') = emit_clamped expected pos1 len colorCode
             in (flushed @ es, pos', None))
      | None \<Rightarrow>
          if lengthCode = 0xff then
            (let (es, pos') = emit_clamped expected pos 0x4000 colorCode in (es, pos', None))
          else if lengthCode AND 0x80 \<noteq> 0 then
            ([], pos, Some (colorCode, lengthCode))
          else
            (let (es, pos') = emit_clamped expected pos (uint lengthCode + 1) colorCode
             in (es, pos', None)))"

text \<open>
  The loop \<open>for i+1 < len(data) && pos < expected\<close>, on the bytes from index \<open>i\<close> on.
  It returns the runs emitted, and \<open>pos\<close> and the holder as the loop leaves them.
\<close>

fun decodeRLE_loop :: "int \<Rightarrow> byte list \<Rightarrow> int \<Rightarrow> holder \<Rightarrow> run list \<times> int \<times> holder" where
  "decodeRLE_loop expected (colorCode # lengthCode # rest) pos h =
     (if pos < expected then
        (let (es, pos', h') = decodeRLE_step expected pos h colorCode lengthCode;
             (es', fin) = decodeRLE_loop expected rest pos' h'
         in (es @ es', fin))
      else ([], pos, h))"
| "decodeRLE_loop expected data pos h = ([], pos, h)"

text \<open>Lines 151 to 159: the flush of a pair still held when the loop ends.\<close>

definition decodeRLE_tail :: "int \<Rightarrow> int \<Rightarrow> holder \<Rightarrow> run list" where
  "decodeRLE_tail expected pos h =
     (case h of
        None \<Rightarrow> []
      | Some (heldColor, heldLength) \<Rightarrow>
          if pos < expected then
            (let tailLen0 = push_bit 7 (uint (heldLength AND 0x7f) + 1);
                 remaining = expected - pos;
                 tailLen = (if tailLen0 > remaining then remaining else tailLen0)
             in if tailLen > 0 \<and> heldColor \<noteq> 0x62 then [(pos, tailLen, heldColor)] else [])
          else [])"

definition decodeRLE :: "byte list \<Rightarrow> int \<Rightarrow> int \<Rightarrow> run list" where
  "decodeRLE data width height =
     (let expected = width * height;
          (es, pos, h) = decodeRLE_loop expected data 0 None
      in es @ decodeRLE_tail expected pos h)"

text \<open>The length the source computes for a held pair: \<open>(int(L & 0x7f) + 1) << 7\<close>.\<close>

definition heldRunLength :: "byte \<Rightarrow> int" where
  "heldRunLength l = push_bit 7 (uint (l AND 0x7f) + 1)"

text \<open>The test of line 133 together with the one of line 131: the pair is buffered.\<close>

definition startsHold :: "byte \<Rightarrow> bool" where
  "startsHold l \<longleftrightarrow> l \<noteq> 0xff \<and> l AND 0x80 \<noteq> 0"


section \<open>The fill sinks (rle.go)\<close>

text \<open>
  The three sinks write into a byte slice in place. The model passes the slice as a list
  and returns the updated list. An index expression \<open>buf[i]\<close> out of range and a slice
  expression \<open>buf[lo:hi]\<close> with \<open>lo > hi\<close> or \<open>hi\<close> beyond the slice make Go panic,
  as does \<open>make\<close> with a negative length; the model returns the panic as a value. The slices of this program come from
  \<open>make([]byte, n)\<close>, so their capacity is their length.

  The sinks multiply the position and the run length by the size of a pixel. Go's \<open>int\<close>
  has 64 bits on the platforms this program is built for, and its arithmetic wraps around
  silently: \<open>int64\<close> is the two's complement value of a result, and the model applies it
  to every sum and product the sinks compute.
\<close>

definition int64 :: "int \<Rightarrow> int" where
  "int64 x = (x + 2 ^ 63) mod 2 ^ 64 - 2 ^ 63"

datatype panic = IndexOutOfRange | SliceBoundsOutOfRange | MakeSliceLenOutOfRange

definition andThen :: "panic + 'a \<Rightarrow> ('a \<Rightarrow> panic + 'b) \<Rightarrow> panic + 'b" where
  "andThen x f = (case x of Inl e \<Rightarrow> Inl e | Inr v \<Rightarrow> f v)"

text \<open>The assignment \<open>buf[i] = v\<close> to an element of a slice.\<close>

definition store :: "'a list \<Rightarrow> int \<Rightarrow> 'a \<Rightarrow> panic + 'a list" where
  "store buf i v =
     (if 0 \<le> i \<and> i < int (length buf) then Inr (buf[nat i := v]) else Inl IndexOutOfRange)"

text \<open>
  The call \<open>copy(buf[dlo:dhi], buf[slo:shi])\<close>: both slice expressions are checked, then
  \<open>min(dhi - dlo, shi - slo)\<close> bytes move from the source range to the destination range
  (as by \<open>memmove\<close>, so the bytes read are those the slice held before the call).
\<close>

definition copy_slices :: "byte list \<Rightarrow> int \<Rightarrow> int \<Rightarrow> int \<Rightarrow> int \<Rightarrow> panic + byte list" where
  "copy_slices buf dlo dhi slo shi =
     (if 0 \<le> dlo \<and> dlo \<le> dhi \<and> dhi \<le> int (length buf) \<and>
         0 \<le> slo \<and> slo \<le> shi \<and> shi \<le> int (length buf)
      then (let n = nat (min (dhi - dlo) (shi - slo))
            in Inr (take (nat dlo) buf @ take n (drop (nat slo) buf) @ drop (nat dlo + n) buf))
      else Inl SliceBoundsOutOfRange)"

text \<open>
  The doubling loop of the three sinks,
  \<open>for filled := f0; filled < bound; filled *= 2 { copy(buf[start+filled*unit:end], buf[start:start+filled*unit]) }\<close>:
  \<^item> \<open>fillRGBA\<close> (lines 186 to 188): \<open>f0 = 4\<close>, \<open>bound = end - start\<close>, \<open>unit = 1\<close>;
  \<^item> \<open>fillRGB\<close> (lines 201 to 203): \<open>f0 = 1\<close>, \<open>bound = count\<close>, \<open>unit = 3\<close>;
  \<^item> \<open>fillCodes\<close> (lines 212 to 214): \<open>f0 = 1\<close>, \<open>bound = end - pos\<close>, \<open>unit = 1\<close>.

  The only test of the loop is \<open>filled < bound\<close>, and a counter that has wrapped around to
  0 stays 0: as a function of arbitrary arguments the loop need not return. The result
  \<open>None\<close> stands for a loop that runs forever, \<open>Some (Inl e)\<close> for a panic and
  \<open>Some (Inr buf')\<close> for a return with the slice as the loop leaves it.
\<close>

partial_function (option) doubling_copy ::
  "byte list \<Rightarrow> int \<Rightarrow> int \<Rightarrow> int \<Rightarrow> int \<Rightarrow> int \<Rightarrow> (panic + byte list) option" where
  "doubling_copy buf start endIdx bound unit filled =
     (if filled < bound then
        (let mid = int64 (start + int64 (filled * unit))
         in case copy_slices buf mid endIdx start mid of
              Inl e \<Rightarrow> Some (Inl e)
            | Inr buf' \<Rightarrow> doubling_copy buf' start endIdx bound unit (int64 (filled * 2)))
      else Some (Inr buf))"

text \<open>The statements before the loop, then the loop: a panic before the loop ends the call.\<close>

definition thenLoop ::
  "panic + 'a \<Rightarrow> ('a \<Rightarrow> (panic + 'b) option) \<Rightarrow> (panic + 'b) option" where
  "thenLoop x f = (case x of Inl e \<Rightarrow> Some (Inl e) | Inr v \<Rightarrow> f v)"

text \<open>Lines 176 to 189.\<close>

definition fillRGBA ::
  "byte list \<Rightarrow> int \<Rightarrow> int \<Rightarrow> byte \<Rightarrow> byte \<Rightarrow> byte \<Rightarrow> byte \<Rightarrow> (panic + byte list) option" where
  "fillRGBA rgba pos count r g b alpha =
     (let start = int64 (pos * 4);
          endIdx = min (int64 (start + int64 (count * 4))) (int (length rgba))
      in if start \<ge> endIdx then Some (Inr rgba)
         else thenLoop
                (andThen (store rgba start r) (\<lambda>b1.
                 andThen (store b1 (int64 (start + 1)) g) (\<lambda>b2.
                 andThen (store b2 (int64 (start + 2)) b) (\<lambda>b3.
                 store b3 (int64 (start + 3)) alpha))))
                (\<lambda>b4. doubling_copy b4 start endIdx (int64 (endIdx - start)) 1 4))"

text \<open>Lines 191 to 204. The loop is bounded by \<open>count\<close>, not by \<open>n\<close>.\<close>

definition fillRGB ::
  "byte list \<Rightarrow> int \<Rightarrow> int \<Rightarrow> byte \<Rightarrow> byte \<Rightarrow> byte \<Rightarrow> (panic + byte list) option" where
  "fillRGB rgb pos count r g b =
     (let start = int64 (pos * 3);
          endIdx = min (int64 (start + int64 (count * 3))) (int (length rgb));
          n = int64 (endIdx - start)
      in if n \<le> 0 then Some (Inr rgb)
         else thenLoop
                (andThen (store rgb start r) (\<lambda>b1.
                 andThen (store b1 (int64 (start + 1)) g) (\<lambda>b2.
                 store b2 (int64 (start + 2)) b)))
                (\<lambda>b3. doubling_copy b3 start endIdx count 3 1))"

text \<open>Lines 206 to 215.\<close>

definition fillCodes :: "byte list \<Rightarrow> int \<Rightarrow> int \<Rightarrow> byte \<Rightarrow> (panic + byte list) option" where
  "fillCodes buf pos count code =
     (let endIdx = min (int64 (pos + count)) (int (length buf))
      in if pos \<ge> endIdx then Some (Inr buf)
         else thenLoop (store buf pos code)
                (\<lambda>b1. doubling_copy b1 pos endIdx (int64 (endIdx - pos)) 1 1))"

text \<open>
  \<open>buf'\<close> has the length of \<open>buf\<close> and differs from it at most at the indices
  \<open>lo \<le> i < hi\<close>.
\<close>

definition unchanged_outside :: "byte list \<Rightarrow> byte list \<Rightarrow> int \<Rightarrow> int \<Rightarrow> bool" where
  "unchanged_outside buf buf' lo hi \<longleftrightarrow>
     length buf' = length buf \<and>
     (\<forall>i < length buf. int i < lo \<or> hi \<le> int i \<longrightarrow> buf' ! i = buf ! i)"


section \<open>Tone layers and their final order (vector.go)\<close>

text \<open>
  The struct \<open>colorLayer\<close>. The fields are prefixed with \<open>layer_\<close>, since \<open>r\<close>, \<open>g\<close>,
  \<open>b\<close> and \<open>alpha\<close> also name parameters of the fill sinks. The paths come from the
  tracing library; their type is left open.
\<close>

record 'path colorLayer =
  layer_r :: byte
  layer_g :: byte
  layer_b :: byte
  layer_alpha :: byte
  layer_paths :: "'path list"

text \<open>
  \<open>slices.SortStableFunc\<close> belongs to the Go standard library, not to this repository.
  The library sorts blocks of up to 20 elements by the insertion sort below,
  \<open>for i := a + 1; i < b; i++ { for j := i; j > a && cmp(data[j], data[j-1]) < 0; j-- { swap } }\<close>,
  and merges longer inputs block by block, keeping equal elements in their order. The
  model takes the insertion sort for every length: for a comparison that is a strict
  weak order the stably sorted arrangement of a list is unique, so the library's merge
  yields the same list.

  \<open>moveLeft cmp x before\<close> is the inner loop: \<open>before\<close> holds the elements to the left
  of \<open>x\<close>, nearest first, and \<open>x\<close> is swapped leftwards while \<open>cmp x y < 0\<close>.
\<close>

fun moveLeft :: "('a \<Rightarrow> 'a \<Rightarrow> int) \<Rightarrow> 'a \<Rightarrow> 'a list \<Rightarrow> 'a list" where
  "moveLeft cmp x [] = [x]"
| "moveLeft cmp x (y # before) = (if cmp x y < 0 then y # moveLeft cmp x before else x # y # before)"

definition insertionSortCmpFunc :: "('a \<Rightarrow> 'a \<Rightarrow> int) \<Rightarrow> 'a list \<Rightarrow> 'a list" where
  "insertionSortCmpFunc cmp data = foldl (\<lambda>sorted x. rev (moveLeft cmp x (rev sorted))) [] data"

definition SortStableFunc :: "('a \<Rightarrow> 'a \<Rightarrow> int) \<Rightarrow> 'a list \<Rightarrow> 'a list" where
  "SortStableFunc cmp data = insertionSortCmpFunc cmp data"

text \<open>The comparison function of lines 181 to 191.\<close>

definition markerFirst :: "('path, 'm) colorLayer_scheme \<Rightarrow> ('path, 'm) colorLayer_scheme \<Rightarrow> int" where
  "markerFirst a b =
     (let aMarker = layer_alpha a < 255; bMarker = layer_alpha b < 255
      in if aMarker \<and> \<not> bMarker then -1
         else if \<not> aMarker \<and> bMarker then 1
         else 0)"

text \<open>The call of line 181 on the layers appended so far.\<close>

definition sortColorLayers :: "'path colorLayer list \<Rightarrow> 'path colorLayer list" where
  "sortColorLayers layers = SortStableFunc markerFirst layers"


section \<open>Metadata blocks (notebook.go)\<close>

text \<open>
  A file is the list of its bytes, and the strings of Go are byte strings: both are
  \<open>string\<close> here, so that the records can be written as literals. The map
  \<open>map[string]string\<close> is a partial function. The errors of \<open>Seek\<close> and
  \<open>io.ReadFull\<close> are values.
\<close>

datatype io_error = SeekError | ReadError

text \<open>
  Lines 127 to 136: the search for the separator from index \<open>i\<close> on. The result is
  \<open>colonIdx - i\<close>; \<open>None\<close> is \<open>colonIdx = -1\<close>.
\<close>

fun findColon :: "string \<Rightarrow> nat option" where
  "findColon [] = None"
| "findColon (c # cs) =
     (if c = CHR '':'' then Some 0
      else if c = CHR ''>'' \<or> c = CHR ''<'' then None
      else map_option Suc (findColon cs))"

text \<open>
  Lines 144 to 150: the search for the closing bracket from index \<open>colonIdx + 1\<close> on.
  The result is \<open>closeIdx - (colonIdx + 1)\<close>; \<open>None\<close> is \<open>closeIdx = -1\<close>.
\<close>

fun findClose :: "string \<Rightarrow> nat option" where
  "findClose [] = None"
| "findClose (c # cs) = (if c = CHR ''>'' then Some 0 else map_option Suc (findClose cs))"

text \<open>
  The loop \<open>for i < len(buf)\<close> of lines 118 to 158, on the bytes \<open>buf[i:]\<close>. After the
  opening bracket \<open>cs\<close> is \<open>buf[i:]\<close> for the incremented \<open>i\<close>: \<open>continue\<close> goes on from
  there, \<open>break\<close> returns the map built so far, and a complete record goes on from
  \<open>closeIdx + 1\<close>.
\<close>

function parseRecords :: "(string \<rightharpoonup> string) \<Rightarrow> string \<Rightarrow> (string \<rightharpoonup> string)" where
  "parseRecords result [] = result"
| "parseRecords result (c # cs) =
     (if c \<noteq> CHR ''<'' then parseRecords result cs
      else (case findColon cs of
              None \<Rightarrow> parseRecords result cs
            | Some k \<Rightarrow>
                (let key = take k cs; afterColon = drop (Suc k) cs
                 in case findClose afterColon of
                      None \<Rightarrow> result
                    | Some n \<Rightarrow>
                        parseRecords (result(key \<mapsto> take n afterColon)) (drop (Suc n) afterColon))))"
  by pat_completeness auto
termination
  by (relation "measure (\<lambda>(result, buf). length buf)") auto

declare parseRecords.simps [simp del]

text \<open>
  \<open>io.ReadFull\<close> of \<open>n\<close> bytes at offset \<open>off\<close>: it fails when the file ends before,
  and succeeds without reading when \<open>n = 0\<close>.
\<close>

definition readFull :: "string \<Rightarrow> nat \<Rightarrow> nat \<Rightarrow> io_error + string" where
  "readFull f off n =
     (if n = 0 then Inr []
      else if off + n \<le> length f then Inr (take n (drop off f))
      else Inl ReadError)"

text \<open>\<open>binary.LittleEndian.Uint32\<close> on the four bytes read.\<close>

definition le32 :: "string \<Rightarrow> nat" where
  "le32 bs = of_char (bs ! 0) + 256 * of_char (bs ! 1) + 65536 * of_char (bs ! 2) + 16777216 * of_char (bs ! 3)"

definition readUint32 :: "string \<Rightarrow> nat \<Rightarrow> io_error + nat" where
  "readUint32 f off = (case readFull f off 4 of Inl e \<Rightarrow> Inl e | Inr bs \<Rightarrow> Inr (le32 bs))"

text \<open>
  \<open>parseMetadataBlock\<close>. \<open>Seek\<close> to \<open>int64(addr)\<close> fails when that offset is negative;
  seeking beyond the end of the file succeeds and the read that follows fails.
\<close>

definition parseMetadataBlock :: "string \<Rightarrow> 64 word \<Rightarrow> io_error + (string \<rightharpoonup> string)" where
  "parseMetadataBlock f addr =
     (if addr = 0 then Inr Map.empty
      else if sint addr < 0 then Inl SeekError
      else (case readUint32 f (unat addr) of
              Inl e \<Rightarrow> Inl e
            | Inr blockLen \<Rightarrow>
                (case readFull f (unat addr + 4) blockLen of
                   Inl e \<Rightarrow> Inl e
                 | Inr buf \<Rightarrow> Inr (parseRecords Map.empty buf))))"

text \<open>
  The layout of a block, as the comment of line 97 gives it: the length in four bytes,
  least significant first, then the records \<open><KEY1:VALUE1><KEY2:VALUE2>...\<close>.
  \<open>put32\<close> writes the length prefix and \<open>serialize\<close> the records; they state the
  properties of the parser and are not part of the program.
\<close>

definition put32 :: "nat \<Rightarrow> string" where
  "put32 n = [char_of n, char_of (n div 256), char_of (n div 65536), char_of (n div 16777216)]"

definition record_bytes :: "string \<times> string \<Rightarrow> string" where
  "record_bytes kv = ''<'' @ fst kv @ '':'' @ snd kv @ ''>''"

definition serialize :: "(string \<times> string) list \<Rightarrow> string" where
  "serialize kvs = concat (map record_bytes kvs)"

text \<open>A key, or the text of a record without separator: no \<open>:\<close>, \<open><\<close> or \<open>>\<close> in it.\<close>

definition plainKey :: "string \<Rightarrow> bool" where
  "plainKey s \<longleftrightarrow> CHR '':'' \<notin> set s \<and> CHR ''<'' \<notin> set s \<and> CHR ''>'' \<notin> set s"


section \<open>Floating point (float64)\<close>

text \<open>
  A finite \<open>float64\<close> is the rational number it stands for. Every operation of the
  source on \<open>float64\<close> is the exact operation on rationals followed by the rounding of
  IEEE 754 binary64, to the nearest representable number, ties to the even significand.
  Not modelled: infinities, NaN and the sign of zero; none of them arises from the
  conversions, sums, products and quotients of \<open>BuildPalette\<close> on finite inputs with a
  non-zero divisor.
\<close>

type_synonym float64 = rat

text \<open>The integer nearest to \<open>q\<close>, the even one of the two when \<open>q\<close> lies half way.\<close>

definition round_half_even :: "rat \<Rightarrow> int" where
  "round_half_even q =
     (let f = \<lfloor>q\<rfloor>; d = q - of_int f
      in if d < 1 / 2 then f
         else if d > 1 / 2 then f + 1
         else if even f then f else f + 1)"

text \<open>
  For \<open>x > 0\<close>, the exponent \<open>e\<close> with \<open>2^e \<le> x < 2^(e+1)\<close>, from the bit lengths of
  numerator and denominator.
\<close>

definition binade :: "rat \<Rightarrow> int" where
  "binade x =
     (let (p, q) = quotient_of x; e0 = bitlen p - bitlen q
      in if 2 powi e0 \<le> x then e0 else e0 - 1)"

text \<open>
  Rounding to binary64: a significand of 53 bits, so the spacing of the representable
  numbers around \<open>x\<close> is \<open>2^(e - 52)\<close>; below \<open>2^(-1022)\<close> the spacing stays
  \<open>2^(-1074)\<close> (subnormal numbers).
\<close>

definition f64_round :: "rat \<Rightarrow> float64" where
  "f64_round x =
     (if x = 0 then 0
      else (let e = max (binade \<bar>x\<bar>) (- 1022); u = 2 powi (e - 52)
            in of_int (round_half_even (x / u)) * u))"

text \<open>
  The conversion \<open>float64(n)\<close> of an integer and the operators \<open>+\<close>, \<open>-\<close>, \<open>*\<close>,
  \<open>/\<close> on \<open>float64\<close>.
\<close>

definition f64_of_int :: "int \<Rightarrow> float64" where
  "f64_of_int n = f64_round (of_int n)"

definition f64_add :: "float64 \<Rightarrow> float64 \<Rightarrow> float64" where
  "f64_add x y = f64_round (x + y)"

definition f64_sub :: "float64 \<Rightarrow> float64 \<Rightarrow> float64" where
  "f64_sub x y = f64_round (x - y)"

definition f64_mul :: "float64 \<Rightarrow> float64 \<Rightarrow> float64" where
  "f64_mul x y = f64_round (x * y)"

definition f64_div :: "float64 \<Rightarrow> float64 \<Rightarrow> float64" where
  "f64_div x y = f64_round (x / y)"

text \<open>
  The conversion \<open>byte(x)\<close> of a \<open>float64\<close>: the fraction is discarded. For a value
  outside 0 to 255 the Go specification leaves the result to the implementation; the
  model reduces it modulo 256.
\<close>

definition byte_of_f64 :: "float64 \<Rightarrow> byte" where
  "byte_of_f64 x = word_of_int (if 0 \<le> x then \<lfloor>x\<rfloor> else \<lceil>x\<rceil>)"


section \<open>Configuration and palette (config.go, rle.go)\<close>

text \<open>
  The structs of config.go. \<open>MarkConfig\<close> and \<open>NoteConfig\<close> embed a \<open>ColorConfig\<close>; the
  embedded struct is a field here. The \<open>Watch\<close> part of \<open>Config\<close> plays no role in the
  conversions and is left out.
\<close>

type_synonym rgb = "byte \<times> byte \<times> byte"

record ColorConfig =
  Black :: string
  DarkGray :: string
  LightGray :: string
  White :: string

record MarkConfig =
  MarkColorConfig :: ColorConfig
  MarkerOpacity :: float64

record NoteConfig =
  NoteColorConfig :: ColorConfig

record Config =
  Mark :: MarkConfig
  Note :: NoteConfig

text \<open>
  \<open>parseHexColor\<close>: an optional leading \<open>#\<close>, then exactly six hexadecimal digits,
  read two by two by \<open>strconv.ParseUint(_, 16, 8)\<close>. On any error the source returns
  zeros together with the error.
\<close>

datatype hex_error = InvalidHexColor

definition hexDigit :: "char \<Rightarrow> nat option" where
  "hexDigit c =
     (let n = (of_char c :: nat)
      in if 48 \<le> n \<and> n \<le> 57 then Some (n - 48)
         else if 97 \<le> n \<and> n \<le> 102 then Some (n - 87)
         else if 65 \<le> n \<and> n \<le> 70 then Some (n - 55)
         else None)"

definition parseHexByte :: "string \<Rightarrow> byte option" where
  "parseHexByte s =
     (case map hexDigit s of
        [Some hi, Some lo] \<Rightarrow> Some (word_of_nat (16 * hi + lo))
      | _ \<Rightarrow> None)"

definition parseHexColor :: "string \<Rightarrow> hex_error + rgb" where
  "parseHexColor hex =
     (let hex' = (case hex of c # rest \<Rightarrow> if c = CHR ''#'' then rest else hex | [] \<Rightarrow> hex)
      in if length hex' \<noteq> 6 then Inl InvalidHexColor
         else (case (parseHexByte (take 2 hex'), parseHexByte (take 2 (drop 2 hex')),
                     parseHexByte (take 2 (drop 4 hex'))) of
                 (Some r, Some g, Some b) \<Rightarrow> Inr (r, g, b)
               | _ \<Rightarrow> Inl InvalidHexColor))"

text \<open>
  \<open>BuildPalette\<close> drops the error, \<open>bR, bG, bB, _ := parseHexColor(cfg.Black)\<close>, and goes
  on with the three values returned.
\<close>

definition valuesOf :: "hex_error + rgb \<Rightarrow> rgb" where
  "valuesOf res = (case res of Inl e \<Rightarrow> (0, 0, 0) | Inr c \<Rightarrow> c)"

text \<open>
  The arrays \<open>Colors [256][3]byte\<close> and \<open>Alphas [256]byte\<close> as functions of the index;
  the source uses indices from 0 to 255 only.
\<close>

record Palette =
  Colors :: "nat \<Rightarrow> rgb"
  Alphas :: "nat \<Rightarrow> byte"

text \<open>
  Lines 34 to 36, one channel:
  \<open>byte(float64(start.r) + f*float64(int(end.r)-int(start.r)))\<close>.
\<close>

definition interpolate :: "byte \<Rightarrow> byte \<Rightarrow> float64 \<Rightarrow> byte" where
  "interpolate s e f =
     byte_of_f64 (f64_add (f64_of_int (uint s)) (f64_mul f (f64_of_int (uint e - uint s))))"

text \<open>The body of the inner loop (lines 33 to 36) for the code \<open>j\<close>.\<close>

definition segmentEntry :: "nat \<times> rgb \<Rightarrow> nat \<times> rgb \<Rightarrow> nat \<Rightarrow> rgb" where
  "segmentEntry startA endA j =
     (case (startA, endA) of
        ((startPos, sr, sg, sb), (endPos, er, eg, eb)) \<Rightarrow>
          (let dist = int endPos - int startPos;
               f = f64_div (f64_of_int (int j - int startPos)) (f64_of_int dist)
           in (interpolate sr er f, interpolate sg eg f, interpolate sb eb f)))"

text \<open>The inner loop \<open>for j := start.pos; j <= end.pos; j++\<close>.\<close>

definition fillSegment :: "nat \<times> rgb \<Rightarrow> nat \<times> rgb \<Rightarrow> (nat \<Rightarrow> rgb) \<Rightarrow> (nat \<Rightarrow> rgb)" where
  "fillSegment startA endA colors =
     foldl (\<lambda>cs j. cs(j := segmentEntry startA endA j)) colors [fst startA ..< Suc (fst endA)]"

text \<open>The outer loop \<open>for i := 0; i < len(anchors)-1; i++\<close> on the zeroed array.\<close>

definition interpolateAnchors :: "(nat \<times> rgb) list \<Rightarrow> (nat \<Rightarrow> rgb)" where
  "interpolateAnchors anchors =
     foldl (\<lambda>cs i. fillSegment (anchors ! i) (anchors ! (i + 1)) cs)
       (\<lambda>j. (0, 0, 0)) [0 ..< length anchors - 1]"

text \<open>The assignments to \<open>p.Colors\<close> of lines 45 to 48, 55 to 57 and 64 to 67, in that order.\<close>

definition aliasColors :: "(nat \<Rightarrow> rgb) \<Rightarrow> (nat \<Rightarrow> rgb)" where
  "aliasColors c0 =
     (let c1 = c0(0x61 := c0 0);
          c2 = c1(0x63 := c1 157);
          c3 = c2(0x64 := c2 201);
          c4 = c3(0x65 := c3 255);
          c5 = c4(0x66 := c4 0);
          c6 = c5(0x67 := c5 157);
          c7 = c6(0x68 := c6 201);
          c8 = c7(0x9d := c7 157);
          c9 = c8(0x9e := c8 157);
          c10 = c9(0xc9 := c9 201);
          c11 = c10(0xca := c10 201)
      in c11)"

text \<open>The assignments to \<open>p.Alphas\<close> of lines 40 to 42 and 59 to 61, with lines 50 to 53.\<close>

definition markerAlphas :: "float64 \<Rightarrow> (nat \<Rightarrow> byte)" where
  "markerAlphas markerOpacity =
     (let a0 = (\<lambda>i. 0xFF);
          mOpacity0 = byte_of_f64 (f64_mul markerOpacity 255);
          mOpacity = (if mOpacity0 = 0 then 0x26 else mOpacity0);
          a1 = a0(0x66 := mOpacity);
          a2 = a1(0x67 := mOpacity);
          a3 = a2(0x68 := mOpacity)
      in a3)"

definition BuildPalette :: "ColorConfig \<Rightarrow> float64 \<Rightarrow> Palette" where
  "BuildPalette cfg markerOpacity =
     (let black = valuesOf (parseHexColor (Black cfg));
          darkGray = valuesOf (parseHexColor (DarkGray cfg));
          lightGray = valuesOf (parseHexColor (LightGray cfg));
          white = valuesOf (parseHexColor (White cfg));
          anchors = [(0, black), (157, darkGray), (201, lightGray), (255, white)]
      in \<lparr>Colors = aliasColors (interpolateAnchors anchors),
          Alphas = markerAlphas markerOpacity\<rparr>)"

text \<open>
  The palettes of the two conversions: line 519 of vector.go,
  \<open>BuildPalette(cfg.Note.ColorConfig, 0.2)\<close>, where the constant 0.2 becomes the nearest
  \<open>float64\<close>, and line 422 of mark.go,
  \<open>BuildPalette(cfg.Mark.ColorConfig, cfg.Mark.MarkerOpacity)\<close>.
\<close>

definition ConvertNoteToPDFVector_palette :: "Config \<Rightarrow> Palette" where
  "ConvertNoteToPDFVector_palette cfg = BuildPalette (NoteColorConfig (Note cfg)) (f64_round (2 / 10))"

definition ConvertMarkToPDFVector_palette :: "Config \<Rightarrow> Palette" where
  "ConvertMarkToPDFVector_palette cfg =
     BuildPalette (MarkColorConfig (Mark cfg)) (MarkerOpacity (Mark cfg))"


section \<open>Formatting and replacing (fmt, strconv, bytes)\<close>

text \<open>
  The verbs of \<open>fmt\<close> and \<open>strconv\<close> that the PDF writer uses. They belong to Go's
  standard library; the model gives what they print for the arguments of this program:
  \<^item> \<open>%d\<close>: the decimal digits of an integer, with a minus sign when it is negative;
  \<^item> \<open>%010d\<close> of an unsigned integer: its decimal digits, padded with zeros on the left
    to ten characters and longer when the number needs more;
  \<^item> \<open>%.2f\<close>, \<open>%.4f\<close> and \<open>strconv.AppendFloat(buf, x, 'f', prec, 64)\<close>: the
    decimal expansion of the value with \<open>prec\<close> digits after the point, rounded to the
    nearest, to the even digit on a tie. A \<open>float64\<close> of the model is a rational, so
    infinities and NaN have no counterpart.
\<close>

definition digitChar :: "nat \<Rightarrow> char" where
  "digitChar d = ''0123456789'' ! d"

function digits :: "nat \<Rightarrow> string" where
  "digits n = (if n < 10 then [digitChar n] else digits (n div 10) @ [digitChar (n mod 10)])"
  by pat_completeness auto

termination
  by (relation "measure id") auto

declare digits.simps [simp del]

definition fmt_d :: "int \<Rightarrow> string" where
  "fmt_d n = (if n < 0 then CHR ''-'' # digits (nat (- n)) else digits (nat n))"

definition fmt_010d :: "nat \<Rightarrow> string" where
  "fmt_010d n = (let ds = digits n in replicate (10 - length ds) CHR ''0'' @ ds)"

definition fmt_f :: "nat \<Rightarrow> float64 \<Rightarrow> string" where
  "fmt_f prec x =
     (let n = nat (round_half_even (\<bar>x\<bar> * 10 ^ prec));
          fd = digits (n mod 10 ^ prec)
      in (if x < 0 then ''-'' else [])
         @ digits (n div 10 ^ prec)
         @ (if prec = 0 then [] else CHR ''.'' # replicate (prec - length fd) CHR ''0'' @ fd))"

text \<open>\<open>math.Round\<close>: the nearest integer, half away from zero.\<close>

definition math_Round :: "float64 \<Rightarrow> float64" where
  "math_Round x = (if 0 \<le> x then of_int \<lfloor>x + 1 / 2\<rfloor> else - of_int \<lfloor>- x + 1 / 2\<rfloor>)"

text \<open>\<open>appendFloat4\<close> (vector.go lines 237 to 241).\<close>

definition appendFloat4 :: "string \<Rightarrow> float64 \<Rightarrow> string" where
  "appendFloat4 buf f = buf @ fmt_f 4 (f64_div (math_Round (f64_mul f 10000)) 10000)"

text \<open>
  \<open>bytes.ReplaceAll(s, old, new)\<close>: every non-overlapping occurrence of \<open>old\<close> in \<open>s\<close>,
  found from left to right, is replaced by \<open>new\<close>. The program calls it with a
  placeholder that is never empty; for an empty \<open>old\<close>, which Go treats separately, the
  model returns \<open>s\<close>.
\<close>

function ReplaceAll :: "string \<Rightarrow> string \<Rightarrow> string \<Rightarrow> string" where
  "ReplaceAll [] old new = []"
| "ReplaceAll (c # cs) old new =
     (if old \<noteq> [] \<and> take (length old) (c # cs) = old
      then new @ ReplaceAll (drop (length old) (c # cs)) old new
      else c # ReplaceAll cs old new)"
  by pat_completeness auto

termination
  by (relation "measure (\<lambda>(s, old, new). length s)") auto

declare ReplaceAll.simps [simp del]


section \<open>The objects of a page (vector.go)\<close>

text \<open>
  The types \<open>pdfLink\<close> (pdf.go), \<open>pdfObject\<close> and \<open>vectorPageChunk\<close>
  (vector.go lines 249 to 256). Byte slices that hold PDF text are strings.
\<close>

record pdfLink =
  Rect :: "float64 \<times> float64 \<times> float64 \<times> float64"
  DestPage :: int

record pdfObject =
  obj_id :: int
  obj_data :: string

record vectorPageChunk =
  objects :: "pdfObject list"

text \<open>
  \<open>buildVectorPageChunk\<close> (vector.go lines 258 to 421), piece by piece.

  Lines 276 to 291: one graphics state per distinct alpha below 255, in the order of the
  layers; \<open>gsMap\<close> maps the alpha to the name \<open>/GS1\<close>, \<open>/GS2\<close>, ...
\<close>

record gsEntry =
  gs_name :: string
  gs_alpha :: byte

definition addGsEntry ::
  "gsEntry list \<times> (byte \<rightharpoonup> string) \<Rightarrow> 'path colorLayer \<Rightarrow> gsEntry list \<times> (byte \<rightharpoonup> string)" where
  "addGsEntry st cl =
     (case st of (gsEntries, gsMap) \<Rightarrow>
        if layer_alpha cl < 255 then
          (case gsMap (layer_alpha cl) of
             Some name \<Rightarrow> st
           | None \<Rightarrow>
               (let name = ''/GS'' @ fmt_d (int (length gsEntries) + 1)
                in (gsEntries @ [\<lparr>gs_name = name, gs_alpha = layer_alpha cl\<rparr>],
                    gsMap(layer_alpha cl \<mapsto> name))))
        else st)"

text \<open>Reading a Go map at a key it does not hold gives the zero value.\<close>

definition lookupName :: "(byte \<rightharpoonup> string) \<Rightarrow> byte \<Rightarrow> string" where
  "lookupName gsMap a = (case gsMap a of Some name \<Rightarrow> name | None \<Rightarrow> [])"

definition lookupID :: "(byte \<rightharpoonup> int) \<Rightarrow> byte \<Rightarrow> int" where
  "lookupID gsObjIDs a = (case gsObjIDs a of Some objID \<Rightarrow> objID | None \<Rightarrow> 0)"

text \<open>
  Lines 306 to 331: the content stream of one layer. The operators of the traced paths are
  written by \<open>appendPDFSubpathTree\<close>, which works on the paths of the tracing library;
  the model takes it as a parameter, and the type of paths with it.
\<close>

definition layerContent ::
  "(string \<Rightarrow> 'path \<Rightarrow> float64 \<Rightarrow> float64 \<Rightarrow> float64 \<Rightarrow> string) \<Rightarrow> (byte \<rightharpoonup> string) \<Rightarrow>
   float64 \<Rightarrow> float64 \<Rightarrow> float64 \<Rightarrow> string \<Rightarrow> 'path colorLayer \<Rightarrow> string" where
  "layerContent appendPDFSubpathTree gsMap sx sy pageHeightPt content cl =
     (if layer_paths cl = [] then content
      else
        (let c1 = content @ ''q\<newline>'';
             c2 = (if layer_alpha cl < 255
                   then c1 @ lookupName gsMap (layer_alpha cl) @ '' gs\<newline>''
                   else c1);
             c3 = appendFloat4 c2 (f64_div (f64_of_int (uint (layer_r cl))) 255) @ '' '';
             c4 = appendFloat4 c3 (f64_div (f64_of_int (uint (layer_g cl))) 255) @ '' '';
             c5 = appendFloat4 c4 (f64_div (f64_of_int (uint (layer_b cl))) 255) @ '' rg\<newline>'';
             c6 = foldl (\<lambda>c p. appendPDFSubpathTree c p sx sy pageHeightPt) c5 (layer_paths cl)
         in c6 @ ''f*\<newline>Q\<newline>''))"

text \<open>Lines 348 to 358: the link annotations, each naming its target by a placeholder.\<close>

definition linkAnnot :: "pdfLink \<Rightarrow> string" where
  "linkAnnot l =
     (case Rect l of (r0, r1, r2, r3) \<Rightarrow>
        ''     << /Type /Annot /Subtype /Link /Rect ['' @ fmt_f 2 r0 @ '' '' @ fmt_f 2 r1 @ '' ''
        @ fmt_f 2 r2 @ '' '' @ fmt_f 2 r3
        @ ''] /Border [0 0 0] /A << /S /GoTo /D [PAGEOBJ_'' @ fmt_d (DestPage l)
        @ '' /Fit] >> >>\<newline>'')"

definition annotsOf :: "pdfLink list \<Rightarrow> string" where
  "annotsOf links =
     (if links \<noteq> [] then
        ''\<newline>   /Annots [\<newline>'' @ concat (map linkAnnot links) @ ''   ]''
      else [])"

text \<open>Lines 332 to 340: the object ids of the graphics states, counted from \<open>objStart + 2\<close>.\<close>

definition assignGsObjIDs :: "int \<Rightarrow> gsEntry list \<Rightarrow> (byte \<rightharpoonup> int) \<times> int" where
  "assignGsObjIDs objStart gsEntries =
     foldl (\<lambda>(gsObjIDs, numObjects) gs.
              (gsObjIDs(gs_alpha gs \<mapsto> objStart + numObjects), numObjects + 1))
       (Map.empty, 2) gsEntries"

text \<open>Lines 293 to 331: the content stream of the page.\<close>

definition pageContent ::
  "(string \<Rightarrow> 'path \<Rightarrow> float64 \<Rightarrow> float64 \<Rightarrow> float64 \<Rightarrow> string) \<Rightarrow> (byte \<rightharpoonup> string) \<Rightarrow>
   'path colorLayer list \<Rightarrow> bool \<Rightarrow> int \<Rightarrow> int \<Rightarrow> float64 \<Rightarrow> float64 \<Rightarrow> string" where
  "pageContent appendPDFSubpathTree gsMap colorLayers hasBG width height pageWidthPt pageHeightPt =
     (let content0 = (if hasBG
                      then appendFloat4 (appendFloat4 ''q\<newline>'' pageWidthPt @ '' 0 0 '') pageHeightPt
                           @ '' 0 0 cm\<newline>/Im1 Do\<newline>Q\<newline>''
                      else []);
          sx = f64_div pageWidthPt (f64_of_int width);
          sy = f64_div pageHeightPt (f64_of_int height)
      in foldl (layerContent appendPDFSubpathTree gsMap sx sy pageHeightPt) content0 colorLayers)"

text \<open>Lines 360 to 373: the resource dictionary.\<close>

definition resourcesOf :: "bool \<Rightarrow> int \<Rightarrow> gsEntry list \<Rightarrow> (byte \<rightharpoonup> int) \<Rightarrow> string" where
  "resourcesOf hasBG imageObjID gsEntries gsObjIDs =
     ''<< ''
     @ (if hasBG then ''/XObject << /Im1 '' @ fmt_d imageObjID @ '' 0 R >> '' else [])
     @ (if gsEntries \<noteq> [] then
          ''/ExtGState << ''
          @ concat (map (\<lambda>gs. gs_name gs @ '' '' @ fmt_d (lookupID gsObjIDs (gs_alpha gs)) @ '' 0 R '')
                      gsEntries)
          @ ''>> ''
        else [])
     @ ''>>''"

text \<open>Lines 375 to 383: the page object and the contents object.\<close>

definition pageObjData :: "int \<Rightarrow> float64 \<Rightarrow> float64 \<Rightarrow> int \<Rightarrow> string \<Rightarrow> string \<Rightarrow> string" where
  "pageObjData pageObjID pageWidthPt pageHeightPt contentsObjID resources annots =
     fmt_d pageObjID
     @ '' 0 obj\<newline><< /Type /Page\<newline>   /Parent 2 0 R\<newline>   /MediaBox [0 0 ''
     @ fmt_f 2 pageWidthPt @ '' '' @ fmt_f 2 pageHeightPt
     @ '']\<newline>   /Contents '' @ fmt_d contentsObjID @ '' 0 R\<newline>   /Resources ''
     @ resources @ annots @ ''\<newline>>>\<newline>endobj\<newline>''"

definition contentsObjData :: "int \<Rightarrow> string \<Rightarrow> string" where
  "contentsObjData contentsObjID content =
     fmt_d contentsObjID @ '' 0 obj\<newline><< /Length '' @ fmt_d (int (length content))
     @ '' >>\<newline>stream\<newline>'' @ content @ ''endstream\<newline>endobj\<newline>''"

text \<open>Lines 391 to 398: the object of one graphics state.\<close>

definition gsObject :: "(byte \<rightharpoonup> int) \<Rightarrow> gsEntry \<Rightarrow> pdfObject" where
  "gsObject gsObjIDs gs =
     (let objID = lookupID gsObjIDs (gs_alpha gs)
      in \<lparr>obj_id = objID,
          obj_data = fmt_d objID @ '' 0 obj\<newline><< /Type /ExtGState /ca ''
            @ fmt_f 4 (f64_div (f64_of_int (uint (gs_alpha gs))) 255)
            @ '' >>\<newline>endobj\<newline>''\<rparr>)"

text \<open>
  Lines 400 to 418: the image object. \<open>compressZlib\<close> (pdf.go) wraps the zlib library;
  the model takes it as a parameter that returns \<open>None\<close> for an error.
\<close>

definition imageObject :: "(string \<Rightarrow> string option) \<Rightarrow> int \<Rightarrow> int \<Rightarrow> int \<Rightarrow> string \<Rightarrow> pdfObject" where
  "imageObject compressZlib imageObjID bgWidth bgHeight raw =
     (let compressed = (case compressZlib raw of Some z \<Rightarrow> z | None \<Rightarrow> raw)
      in \<lparr>obj_id = imageObjID,
          obj_data = fmt_d imageObjID
            @ '' 0 obj\<newline><< /Type /XObject\<newline>   /Subtype /Image\<newline>   /Width ''
            @ fmt_d bgWidth @ ''\<newline>   /Height '' @ fmt_d bgHeight
            @ ''\<newline>   /ColorSpace /DeviceRGB\<newline>   /BitsPerComponent 8\<newline>   /Filter /FlateDecode\<newline>   /Length ''
            @ fmt_d (int (length compressed)) @ '' >>\<newline>stream\<newline>''
            @ compressed @ ''\<newline>endstream\<newline>endobj\<newline>''\<rparr>)"

text \<open>
  The function as a whole. \<open>bgRGB0 = None\<close> is the \<open>nil\<close> slice. The result is the chunk
  and the number of objects it holds.
\<close>

definition buildVectorPageChunk ::
  "(string \<Rightarrow> string option) \<Rightarrow>
   (string \<Rightarrow> 'path \<Rightarrow> float64 \<Rightarrow> float64 \<Rightarrow> float64 \<Rightarrow> string) \<Rightarrow>
   'path colorLayer list \<Rightarrow> string option \<Rightarrow> int \<Rightarrow> int \<Rightarrow> float64 \<Rightarrow> float64 \<Rightarrow>
   pdfLink list \<Rightarrow> int \<Rightarrow> bool \<Rightarrow> vectorPageChunk \<times> int" where
  "buildVectorPageChunk compressZlib appendPDFSubpathTree colorLayers bgRGB0 width height
       pageWidthPt pageHeightPt links objStart ocrFallback =
     (let synthetic = (bgRGB0 = None \<and> ocrFallback);
          bgRGB = (if synthetic then Some [CHR 0xFF, CHR 0xFF, CHR 0xFF] else bgRGB0);
          bgWidth = (if synthetic then 1 else width);
          bgHeight = (if synthetic then 1 else height);
          hasBG = (bgRGB \<noteq> None);
          (gsEntries, gsMap) = foldl addGsEntry ([], Map.empty) colorLayers;
          content = pageContent appendPDFSubpathTree gsMap colorLayers hasBG width height
                      pageWidthPt pageHeightPt;
          pageObjID = objStart;
          contentsObjID = objStart + 1;
          (gsObjIDs, numObjects1) = assignGsObjIDs objStart gsEntries;
          imageObjID = (if hasBG then objStart + numObjects1 else 0);
          numObjects = (if hasBG then numObjects1 + 1 else numObjects1);
          annots = annotsOf links;
          resources = resourcesOf hasBG imageObjID gsEntries gsObjIDs;
          pageObj = pageObjData pageObjID pageWidthPt pageHeightPt contentsObjID resources annots;
          contentsObj = contentsObjData contentsObjID content;
          gsObjects = map (gsObject gsObjIDs) gsEntries;
          imageObjects = (case bgRGB of
                            None \<Rightarrow> []
                          | Some raw \<Rightarrow> [imageObject compressZlib imageObjID bgWidth bgHeight raw])
      in (\<lparr>objects = [\<lparr>obj_id = pageObjID, obj_data = pageObj\<rparr>,
                       \<lparr>obj_id = contentsObjID, obj_data = contentsObj\<rparr>]
                      @ gsObjects @ imageObjects\<rparr>,
          numObjects))"


section \<open>The assembly of the document (vector.go)\<close>

text \<open>
  The assembly of the document in \<open>ConvertNoteToPDFVector\<close> (vector.go lines 513 to 670),
  from the point where every page is rendered. \<open>NoteLink\<close> is the type of notebook.go
  (its field \<open>DestPage\<close> is \<open>LinkDestPage\<close> here); a \<open>pageResult\<close> is the rendering of
  one page, without the error that ends the conversion before the assembly.
\<close>

record NoteLink =
  SourcePage :: int
  X :: int
  Y :: int
  W :: int
  H :: int
  LinkDestPage :: int
  SameFile :: bool

record 'path pageResult =
  colorLayers :: "'path colorLayer list"
  bgRGB :: "string option"

text \<open>
  Lines 528 to 542: the links of the notebook that stay in the file and point to a page of
  it, grouped by the page they are on. The Go map \<open>pageLinks\<close> is a function that gives
  the empty list where the map has no entry.
\<close>

definition addPageLink ::
  "int \<Rightarrow> float64 \<Rightarrow> float64 \<Rightarrow> (int \<Rightarrow> pdfLink list) \<Rightarrow> NoteLink \<Rightarrow> (int \<Rightarrow> pdfLink list)" where
  "addPageLink totalPages scale pageHeightPt pageLinks nl =
     (if \<not> SameFile nl \<or> LinkDestPage nl < 0 \<or> LinkDestPage nl \<ge> totalPages then pageLinks
      else pageLinks(SourcePage nl := pageLinks (SourcePage nl) @
             [\<lparr>Rect = (f64_mul (f64_of_int (X nl)) scale,
                       f64_sub pageHeightPt (f64_mul (f64_of_int (Y nl + H nl)) scale),
                       f64_mul (f64_of_int (X nl + W nl)) scale,
                       f64_sub pageHeightPt (f64_mul (f64_of_int (Y nl)) scale)),
               DestPage = LinkDestPage nl\<rparr>]))"

text \<open>
  Lines 606 to 623: the chunks are built page by page, each from the next free object id.
  The result is \<open>pageObjIDs\<close>, \<open>chunks\<close> and the final \<open>nextObjID\<close>.
\<close>

fun allocateChunks ::
  "(string \<Rightarrow> string option) \<Rightarrow>
   (string \<Rightarrow> 'path \<Rightarrow> float64 \<Rightarrow> float64 \<Rightarrow> float64 \<Rightarrow> string) \<Rightarrow>
   int \<Rightarrow> int \<Rightarrow> float64 \<Rightarrow> float64 \<Rightarrow> (int \<Rightarrow> pdfLink list) \<Rightarrow>
   'path pageResult list \<Rightarrow> int \<Rightarrow> int \<Rightarrow> int list \<times> vectorPageChunk list \<times> int" where
  "allocateChunks compressZlib tree width height pageWidthPt pageHeightPt pageLinks [] i nextObjID =
     ([], [], nextObjID)"
| "allocateChunks compressZlib tree width height pageWidthPt pageHeightPt pageLinks (r # rs) i nextObjID =
     (let (chunk, numObjs) =
            buildVectorPageChunk compressZlib tree (colorLayers r) (bgRGB r) width height
              pageWidthPt pageHeightPt (pageLinks i) nextObjID True;
          (pageObjIDs, chunks, fin) =
            allocateChunks compressZlib tree width height pageWidthPt pageHeightPt pageLinks rs
              (i + 1) (nextObjID + numObjs)
      in (nextObjID # pageObjIDs, chunk # chunks, fin))"

text \<open>
  Lines 625 to 634: in the page object of every chunk, the inner loop replaces the
  placeholder of every page, in the order of the pages, by the reference to its object.
\<close>

definition resolvePlaceholders :: "int list \<Rightarrow> string \<Rightarrow> string" where
  "resolvePlaceholders pageObjIDs data =
     foldl (\<lambda>data (destPage, destObjID).
              ReplaceAll data (''PAGEOBJ_'' @ fmt_d (int destPage)) (fmt_d destObjID @ '' 0 R''))
       data (zip [0 ..< length pageObjIDs] pageObjIDs)"

definition resolveChunk :: "int list \<Rightarrow> vectorPageChunk \<Rightarrow> panic + vectorPageChunk" where
  "resolveChunk pageObjIDs chunk =
     (case objects chunk of
        [] \<Rightarrow> Inl IndexOutOfRange
      | obj # objs \<Rightarrow>
          Inr (chunk\<lparr>objects := obj\<lparr>obj_data := resolvePlaceholders pageObjIDs (obj_data obj)\<rparr> # objs\<rparr>))"

fun resolveChunks :: "int list \<Rightarrow> vectorPageChunk list \<Rightarrow> panic + vectorPageChunk list" where
  "resolveChunks pageObjIDs [] = Inr []"
| "resolveChunks pageObjIDs (chunk # chunks) =
     andThen (resolveChunk pageObjIDs chunk) (\<lambda>chunk'.
     andThen (resolveChunks pageObjIDs chunks) (\<lambda>chunks'. Inr (chunk' # chunks')))"

text \<open>
  The writer (lines 477 to 511). The output file is the string of the bytes written so far;
  errors of the file system are left out. The offset is kept as in the source: it is
  advanced by the length of what is written, and by 20 for every entry of the table. It is
  a \<open>uint64\<close> in the source and a natural number here: a file does not reach 2^64 bytes.
\<close>

record pdfWriter =
  pw_out :: string
  pw_offset :: nat

definition pw_write :: "pdfWriter \<Rightarrow> string \<Rightarrow> pdfWriter" where
  "pw_write pw data = pw\<lparr>pw_out := pw_out pw @ data, pw_offset := pw_offset pw + length data\<rparr>"

definition writeStr :: "pdfWriter \<Rightarrow> string \<Rightarrow> pdfWriter" where
  "writeStr pw s = pw\<lparr>pw_out := pw_out pw @ s, pw_offset := pw_offset pw + length s\<rparr>"

definition writeHeader :: "pdfWriter \<Rightarrow> pdfWriter" where
  "writeHeader pw = pw_write pw (''%PDF-1.7\<newline>%'' @ [CHR 0xE2, CHR 0xE3, CHR 0xCF, CHR 0xD3] @ ''\<newline>'')"

definition writeXrefEntry :: "pdfWriter \<Rightarrow> nat \<Rightarrow> pdfWriter" where
  "writeXrefEntry pw off =
     pw\<lparr>pw_out := pw_out pw @ fmt_010d off @ '' 00000 n \<newline>'', pw_offset := pw_offset pw + 20\<rparr>"

definition writeXrefTrailer :: "pdfWriter \<Rightarrow> nat list \<Rightarrow> int \<Rightarrow> pdfWriter" where
  "writeXrefTrailer pw xrefOffsets totalObjects =
     (let xrefStart = pw_offset pw;
          pw1 = writeStr pw ''xref\<newline>'';
          pw2 = writeStr pw1 (''0 '' @ fmt_d (totalObjects + 1) @ ''\<newline>'');
          pw3 = writeStr pw2 ''0000000000 65535 f \<newline>'';
          pw4 = foldl writeXrefEntry pw3 xrefOffsets;
          pw5 = writeStr pw4 ''trailer\<newline>'';
          pw6 = writeStr pw5 (''<< /Size '' @ fmt_d (totalObjects + 1) @ '' /Root 1 0 R >>\<newline>'');
          pw7 = writeStr pw6 ''startxref\<newline>'';
          pw8 = writeStr pw7 (fmt_d (int xrefStart) @ ''\<newline>'')
      in writeStr pw8 ''%%EOF\<newline>'')"

text \<open>Lines 661 to 666: the objects of the chunks, each offset stored at \<open>xrefOffsets[obj.id-1]\<close>.\<close>

fun writeObjects :: "pdfWriter \<Rightarrow> nat list \<Rightarrow> pdfObject list \<Rightarrow> panic + pdfWriter \<times> nat list" where
  "writeObjects pw xrefOffsets [] = Inr (pw, xrefOffsets)"
| "writeObjects pw xrefOffsets (obj # objs) =
     andThen (store xrefOffsets (obj_id obj - 1) (pw_offset pw)) (\<lambda>xrefOffsets'.
     writeObjects (pw_write pw (obj_data obj)) xrefOffsets' objs)"

fun writeChunks :: "pdfWriter \<Rightarrow> nat list \<Rightarrow> vectorPageChunk list \<Rightarrow> panic + pdfWriter \<times> nat list" where
  "writeChunks pw xrefOffsets [] = Inr (pw, xrefOffsets)"
| "writeChunks pw xrefOffsets (chunk # chunks) =
     andThen (writeObjects pw xrefOffsets (objects chunk)) (\<lambda>(pw', xrefOffsets').
     writeChunks pw' xrefOffsets' chunks)"

text \<open>Lines 648 to 659: the catalog and the page tree.\<close>

definition catalogData :: string where
  "catalogData = ''1 0 obj\<newline><< /Type /Catalog /Pages 2 0 R >>\<newline>endobj\<newline>''"

fun joinRefs :: "int list \<Rightarrow> string" where
  "joinRefs [] = []"
| "joinRefs [objID] = fmt_d objID @ '' 0 R''"
| "joinRefs (objID # rest) = fmt_d objID @ '' 0 R'' @ '' '' @ joinRefs rest"

definition pagesData :: "int list \<Rightarrow> string" where
  "pagesData pageObjIDs =
     ''2 0 obj\<newline><< /Type /Pages /Kids [ '' @ joinRefs pageObjIDs @ '' ] /Count ''
     @ fmt_d (int (length pageObjIDs)) @ '' >>\<newline>endobj\<newline>''"

text \<open>Lines 641 to 666: everything written before the cross-reference table.\<close>

definition writeBody ::
  "int list \<Rightarrow> vectorPageChunk list \<Rightarrow> int \<Rightarrow> panic + pdfWriter \<times> nat list" where
  "writeBody pageObjIDs chunks totalObjects =
     (if totalObjects < 0 then Inl MakeSliceLenOutOfRange
      else
        (let pw0 = \<lparr>pw_out = [], pw_offset = 0\<rparr>;
             xrefOffsets = replicate (nat totalObjects) 0;
             pw1 = writeHeader pw0
         in andThen (store xrefOffsets 0 (pw_offset pw1)) (\<lambda>xrefOffsets1.
            let pw2 = pw_write pw1 catalogData
            in andThen (store xrefOffsets1 1 (pw_offset pw2)) (\<lambda>xrefOffsets2.
               let pw3 = writeStr pw2 (pagesData pageObjIDs)
               in writeChunks pw3 xrefOffsets2 chunks))))"

text \<open>
  Lines 521 to 666, and with line 668 the bytes of the file. The width, the height and
  the resolution of the notebook are those of its device, 1404, 1872 and 300 or 1920, 2560
  and 300 (\<open>detectDeviceDimensions\<close>, notebook.go lines 164 to 176); the model leaves
  them parameters. They are the only divisors of the assembly, so the quotients of the
  program are finite.
\<close>

definition assembleParts ::
  "(string \<Rightarrow> string option) \<Rightarrow>
   (string \<Rightarrow> 'path \<Rightarrow> float64 \<Rightarrow> float64 \<Rightarrow> float64 \<Rightarrow> string) \<Rightarrow>
   int \<Rightarrow> int \<Rightarrow> float64 \<Rightarrow> NoteLink list \<Rightarrow> 'path pageResult list \<Rightarrow>
   panic + int list \<times> vectorPageChunk list \<times> int \<times> pdfWriter \<times> nat list" where
  "assembleParts compressZlib tree width height ppi links results =
     (let pageWidthPt = f64_mul (f64_div (f64_of_int width) ppi) 72;
          pageHeightPt = f64_mul (f64_div (f64_of_int height) ppi) 72;
          totalPages = int (length results);
          scale = f64_div 72 ppi;
          pageLinks = foldl (addPageLink totalPages scale pageHeightPt) (\<lambda>i. []) links;
          (pageObjIDs, chunks0, nextObjID) =
            allocateChunks compressZlib tree width height pageWidthPt pageHeightPt pageLinks results 0 3
      in andThen (resolveChunks pageObjIDs chunks0) (\<lambda>chunks.
         let totalObjects = nextObjID - 1
         in andThen (writeBody pageObjIDs chunks totalObjects) (\<lambda>(pw, xrefOffsets).
            Inr (pageObjIDs, chunks, totalObjects, pw, xrefOffsets))))"

definition ConvertNoteToPDFVector_assemble ::
  "(string \<Rightarrow> string option) \<Rightarrow>
   (string \<Rightarrow> 'path \<Rightarrow> float64 \<Rightarrow> float64 \<Rightarrow> float64 \<Rightarrow> string) \<Rightarrow>
   int \<Rightarrow> int \<Rightarrow> float64 \<Rightarrow> NoteLink list \<Rightarrow> 'path pageResult list \<Rightarrow> panic + string" where
  "ConvertNoteToPDFVector_assemble compressZlib tree width height ppi links results =
     andThen (assembleParts compressZlib tree width height ppi links results)
       (\<lambda>(pageObjIDs, chunks, totalObjects, pw, xrefOffsets).
          Inr (pw_out (writeXrefTrailer pw xrefOffsets totalObjects)))"

text \<open>
  What the statements about the file are written with: the objects of the document in the
  order they are written, the bytes of the cross-reference section for a table of offsets,
  and \<open>objectAt out off obj\<close>, the bytes of \<open>obj\<close> standing in \<open>out\<close> from the
  offset \<open>off\<close> on.
\<close>

definition documentObjects :: "int list \<Rightarrow> vectorPageChunk list \<Rightarrow> pdfObject list" where
  "documentObjects pageObjIDs chunks =
     \<lparr>obj_id = 1, obj_data = catalogData\<rparr> # \<lparr>obj_id = 2, obj_data = pagesData pageObjIDs\<rparr>
     # concat (map objects chunks)"

definition xrefSection :: "nat list \<Rightarrow> int \<Rightarrow> nat \<Rightarrow> string" where
  "xrefSection xrefOffsets totalObjects xrefStart =
     ''xref\<newline>'' @ ''0 '' @ fmt_d (totalObjects + 1) @ ''\<newline>''
     @ ''0000000000 65535 f \<newline>''
     @ concat (map (\<lambda>off. fmt_010d off @ '' 00000 n \<newline>'') xrefOffsets)
     @ ''trailer\<newline>''
     @ ''<< /Size '' @ fmt_d (totalObjects + 1) @ '' /Root 1 0 R >>\<newline>''
     @ ''startxref\<newline>'' @ fmt_d (int xrefStart) @ ''\<newline>''
     @ ''%%EOF\<newline>''"

definition objectAt :: "string \<Rightarrow> nat \<Rightarrow> pdfObject \<Rightarrow> bool" where
  "objectAt out off obj \<longleftrightarrow> take (length (obj_data obj)) (drop off out) = obj_data obj"

text \<open>
  An example document: pages without strokes and without background, and on the first page
  one link to the second page and one to the thirteenth.
\<close>

definition blankPages :: "nat \<Rightarrow> unit pageResult list" where
  "blankPages n = replicate n \<lparr>colorLayers = [], bgRGB = None\<rparr>"

definition linksToPages1And12 :: "NoteLink list" where
  "linksToPages1And12 =
     [\<lparr>SourcePage = 0, X = 100, Y = 200, W = 300, H = 50, LinkDestPage = 1, SameFile = True\<rparr>,
      \<lparr>SourcePage = 0, X = 100, Y = 400, W = 300, H = 50, LinkDestPage = 12, SameFile = True\<rparr>]"

definition noPaths :: "string \<Rightarrow> unit \<Rightarrow> float64 \<Rightarrow> float64 \<Rightarrow> float64 \<Rightarrow> string" where
  "noPaths content p sx sy pageHeightPt = content"

text \<open>What the proofs are written with.\<close>

definition gsInv :: "gsEntry list \<times> (byte \<rightharpoonup> string) \<Rightarrow> bool" where
  "gsInv st \<longleftrightarrow> distinct (map gs_alpha (fst st)) \<and> dom (snd st) = set (map gs_alpha (fst st))"

definition consecutive :: "int \<Rightarrow> nat \<Rightarrow> int list" where
  "consecutive first n = map (\<lambda>j. first + int j) [0 ..< n]"

definition written :: "pdfWriter \<Rightarrow> string \<Rightarrow> pdfWriter" where
  "written pw s = \<lparr>pw_out = pw_out pw @ s, pw_offset = length (pw_out pw) + length s\<rparr>"



section \<open>Properties of the decoder\<close>

lemma emit_clamped_colors:
  "emit_clamped expected pos len c = (es, pos') \<Longrightarrow> (p, l, c') \<in> set es \<Longrightarrow> c' \<noteq> 0x62"
  by (auto simp: emit_clamped_def Let_def split: if_splits)

lemma decodeRLE_step_colors:
  assumes "decodeRLE_step expected pos h c l = (es, pos', h')"
    and "(p, n, c') \<in> set es"
  shows "c' \<noteq> 0x62"
  using assms
  by (auto simp: decodeRLE_step_def emit_clamped_def Let_def
      split: option.splits if_splits prod.splits)

lemma decodeRLE_loop_colors:
  "decodeRLE_loop expected data pos h = (es, fin) \<Longrightarrow> (p, n, c') \<in> set es \<Longrightarrow> c' \<noteq> 0x62"
proof (induction expected data pos h arbitrary: es fin rule: decodeRLE_loop.induct)
  case (1 expected colorCode lengthCode rest pos h)
  show ?case
  proof (cases "pos < expected")
    case False
    with "1.prems" show ?thesis by simp
  next
    case True
    obtain es1 pos1 h1 where st: "decodeRLE_step expected pos h colorCode lengthCode = (es1, pos1, h1)"
      by (cases "decodeRLE_step expected pos h colorCode lengthCode") auto
    obtain es2 fin2 where lp: "decodeRLE_loop expected rest pos1 h1 = (es2, fin2)"
      by (cases "decodeRLE_loop expected rest pos1 h1") auto
    from "1.prems"(1) True st lp have es: "es = es1 @ es2" by simp
    with "1.prems"(2) consider "(p, n, c') \<in> set es1" | "(p, n, c') \<in> set es2" by auto
    then show ?thesis
    proof cases
      case 1
      with st show ?thesis by (rule decodeRLE_step_colors)
    next
      case 2
      from "1.IH" [OF True st [symmetric] refl refl lp 2] show ?thesis .
    qed
  qed
qed simp_all

lemma decodeRLE_tail_colors:
  "(p, n, c') \<in> set (decodeRLE_tail expected pos h) \<Longrightarrow> c' \<noteq> 0x62"
  by (auto simp: decodeRLE_tail_def Let_def split: option.splits if_splits)

lemma heldRunLength_pos: "0 < heldRunLength l"
  by (simp add: heldRunLength_def push_bit_eq_mult add_nonneg_pos)

lemma decodeRLE_step_same_color:
  "decodeRLE_step expected pos (Some (c, l1)) c l2 =
     ((if c = 0x62 then [] else [(pos, min (1 + uint l2 + heldRunLength l1) (expected - pos), c)]),
      pos + min (1 + uint l2 + heldRunLength l1) (expected - pos), None)"
  by (auto simp: decodeRLE_step_def emit_clamped_def heldRunLength_def Let_def min_def)

lemma emit_clamped_min:
  "emit_clamped expected pos len c =
     ((if c = 0x62 then [] else [(pos, min len (expected - pos), c)]), pos + min len (expected - pos))"
  by (auto simp: emit_clamped_def Let_def min_def)

lemma decodeRLE_step_max:
  "decodeRLE_step expected pos None c 0xff =
     ((if c = 0x62 then [] else [(pos, min 0x4000 (expected - pos), c)]),
      pos + min 0x4000 (expected - pos), None)"
  by (simp add: decodeRLE_step_def emit_clamped_min)

lemma decodeRLE_step_plain:
  "l AND 0x80 = 0 \<Longrightarrow>
   decodeRLE_step expected pos None c l =
     ((if c = 0x62 then [] else [(pos, min (uint l + 1) (expected - pos), c)]),
      pos + min (uint l + 1) (expected - pos), None)"
  by (auto simp: decodeRLE_step_def emit_clamped_min)

lemma decodeRLE_step_hold:
  "startsHold l \<Longrightarrow> decodeRLE_step expected pos None c l = ([], pos, Some (c, l))"
  by (simp add: decodeRLE_step_def startsHold_def)

lemma decodeRLE_step_change:
  "c \<noteq> pc \<Longrightarrow>
   decodeRLE_step expected pos (Some (pc, pl)) c l =
     ((if pc = 0x62 then [] else [(pos, min (heldRunLength pl) (expected - pos), pc)]) @
      (if c = 0x62 then []
       else [(pos + min (heldRunLength pl) (expected - pos),
              min (uint l + 1) (expected - (pos + min (heldRunLength pl) (expected - pos))), c)]),
      pos + min (heldRunLength pl) (expected - pos) +
        min (uint l + 1) (expected - (pos + min (heldRunLength pl) (expected - pos))),
      None)"
  by (simp add: decodeRLE_step_def emit_clamped_min heldRunLength_def Let_def min_def)

lemma decodeRLE_step_cases:
  obtains (hold) "h = None" "startsHold l"
  | (max) "h = None" "l = 0xff"
  | (plain) "h = None" "l AND 0x80 = 0"
  | (same) pl where "h = Some (c, pl)"
  | (change) pc pl where "h = Some (pc, pl)" "c \<noteq> pc"
  by (cases h) (auto simp: startsHold_def)

lemma decodeRLE_step_range:
  assumes "pos < expected" and "decodeRLE_step expected pos h c l = (es, pos', h')"
  shows "pos \<le> pos' \<and> pos' \<le> expected \<and> (\<forall>(p, n, d) \<in> set es. pos \<le> p \<and> 0 \<le> n \<and> p + n \<le> pos')"
proof (cases rule: decodeRLE_step_cases [where h = h and l = l and c = c])
  case hold
  with assms show ?thesis by (auto simp: decodeRLE_step_hold split: if_splits)
next
  case max
  with assms show ?thesis by (auto simp: decodeRLE_step_max split: if_splits)
next
  case plain
  with assms show ?thesis by (auto simp: decodeRLE_step_plain split: if_splits)
next
  case (same pl)
  with assms heldRunLength_pos [of pl] show ?thesis
    by (auto simp: decodeRLE_step_same_color split: if_splits)
next
  case (change pc pl)
  with assms heldRunLength_pos [of pl] show ?thesis
    by (auto simp: decodeRLE_step_change split: if_splits)
qed

lemma decodeRLE_loop_full: "expected \<le> pos \<Longrightarrow> decodeRLE_loop expected data pos h = ([], pos, h)"
  by (cases "(expected, data, pos, h)" rule: decodeRLE_loop.cases) auto

lemma decodeRLE_loop_range:
  "decodeRLE_loop expected data pos h = (es, pos', h') \<Longrightarrow>
   pos \<le> pos' \<and> (pos \<le> expected \<longrightarrow> pos' \<le> expected) \<and>
   (\<forall>(p, n, d) \<in> set es. pos \<le> p \<and> 0 \<le> n \<and> p + n \<le> pos')"
proof (induction expected data pos h arbitrary: es pos' h' rule: decodeRLE_loop.induct)
  case (1 expected colorCode lengthCode rest pos h)
  show ?case
  proof (cases "pos < expected")
    case False
    with "1.prems" show ?thesis by simp
  next
    case True
    obtain es1 pos1 h1 where st: "decodeRLE_step expected pos h colorCode lengthCode = (es1, pos1, h1)"
      by (cases "decodeRLE_step expected pos h colorCode lengthCode") auto
    obtain es2 pos2 h2 where lp: "decodeRLE_loop expected rest pos1 h1 = (es2, pos2, h2)"
      by (cases "decodeRLE_loop expected rest pos1 h1") auto
    from "1.prems" True st lp have es: "es = es1 @ es2" and p: "pos' = pos2" by simp_all
    note r1 = decodeRLE_step_range [OF True st]
    note r2 = "1.IH" [OF True st [symmetric] refl refl lp]
    from r1 r2 show ?thesis unfolding es p by fastforce
  qed
qed simp_all

lemma decodeRLE_tail_range:
  "(p, n, d) \<in> set (decodeRLE_tail expected pos h) \<Longrightarrow> p = pos \<and> 0 < n \<and> p + n \<le> expected"
  by (auto simp: decodeRLE_tail_def Let_def split: option.splits if_splits)

lemma decodeRLE_loop_append:
  "even (length pre) \<Longrightarrow>
   decodeRLE_loop expected (pre @ rest) pos h =
     (let (es1, pos1, h1) = decodeRLE_loop expected pre pos h;
          (es2, fin) = decodeRLE_loop expected rest pos1 h1
      in (es1 @ es2, fin))"
proof (induction expected pre pos h rule: decodeRLE_loop.induct)
  case (1 expected colorCode lengthCode pre' pos h)
  show ?case
  proof (cases "pos < expected")
    case False
    then show ?thesis by (simp add: decodeRLE_loop_full)
  next
    case True
    obtain es1 pos1 h1 where st: "decodeRLE_step expected pos h colorCode lengthCode = (es1, pos1, h1)"
      by (cases "decodeRLE_step expected pos h colorCode lengthCode") auto
    from "1.prems" have ev: "even (length pre')" by simp
    from "1.IH" [OF True st [symmetric] refl refl ev] True st show ?thesis
      by (simp add: Let_def split: prod.splits)
  qed
qed simp_all

text \<open>
  Claim C7. Whatever the input bytes and the raster size, no call of \<open>emit\<close> made by
  \<open>decodeRLE\<close> carries the transparent colour code 0x62: not for a normal run, not for
  a held run flushed on a colour change, not for the tail flush at the end of the input.
  The pixels of a transparent run are left to the sink as they were, because every run
  takes its place in the raster whether it is emitted or not:
  \<^item> a pair read with no pair held advances the position by its run length (16384 for
    the length code 0xff, \<open>l + 1\<close> for a length code below 0x80) clamped to the pixels
    that remain, whatever its colour, and a length code that starts a hold leaves the
    position where it is;
  \<^item> a pair read while a pair is held advances the position by the clamped length of
    the merged run when the colours agree, and by the clamped length of the held run
    followed by the clamped length of its own run when they differ, whatever the two
    colours;
  \<^item> when the loop reaches a pair at position \<open>p1\<close> and leaves it at position \<open>p2\<close>,
    the runs emitted before the pair end at or before \<open>p1\<close>, those emitted for the pair
    lie between \<open>p1\<close> and \<open>p2\<close>, and those emitted after it, the tail flush included,
    start at or after \<open>p2\<close> and end within the raster. So no run is ever emitted over
    the pixels of a run that was skipped.
\<close>

theorem decodeRLE_never_emits_transparent:
  "(\<forall>(p, n, d) \<in> set (decodeRLE data width height). d \<noteq> 0x62) \<and>
   decodeRLE_step expected pos None c 0xff =
     ((if c = 0x62 then [] else [(pos, min 0x4000 (expected - pos), c)]),
      pos + min 0x4000 (expected - pos), None) \<and>
   (l AND 0x80 = 0 \<longrightarrow>
      decodeRLE_step expected pos None c l =
        ((if c = 0x62 then [] else [(pos, min (uint l + 1) (expected - pos), c)]),
         pos + min (uint l + 1) (expected - pos), None)) \<and>
   (startsHold l \<longrightarrow> decodeRLE_step expected pos None c l = ([], pos, Some (c, l))) \<and>
   decodeRLE_step expected pos (Some (c, pl)) c l =
     ((if c = 0x62 then [] else [(pos, min (1 + uint l + heldRunLength pl) (expected - pos), c)]),
      pos + min (1 + uint l + heldRunLength pl) (expected - pos), None) \<and>
   (c \<noteq> pc \<longrightarrow>
      decodeRLE_step expected pos (Some (pc, pl)) c l =
        ((if pc = 0x62 then [] else [(pos, min (heldRunLength pl) (expected - pos), pc)]) @
         (if c = 0x62 then []
          else [(pos + min (heldRunLength pl) (expected - pos),
                 min (uint l + 1) (expected - (pos + min (heldRunLength pl) (expected - pos))), c)]),
         pos + min (heldRunLength pl) (expected - pos) +
           min (uint l + 1) (expected - (pos + min (heldRunLength pl) (expected - pos))),
         None)) \<and>
   (even (length pre) \<and>
    decodeRLE_loop (width * height) pre 0 None = (es1, p1, h1) \<and> p1 < width * height \<and>
    decodeRLE_step (width * height) p1 h1 c' l' = (es2, p2, h2) \<and>
    decodeRLE_loop (width * height) rest p2 h2 = (es3, p3, h3) \<longrightarrow>
      decodeRLE (pre @ c' # l' # rest) width height =
        es1 @ es2 @ es3 @ decodeRLE_tail (width * height) p3 h3 \<and>
      (\<forall>(p, n, d) \<in> set es1. 0 \<le> p \<and> 0 \<le> n \<and> p + n \<le> p1) \<and>
      (\<forall>(p, n, d) \<in> set es2. p1 \<le> p \<and> 0 \<le> n \<and> p + n \<le> p2) \<and>
      (\<forall>(p, n, d) \<in> set (es3 @ decodeRLE_tail (width * height) p3 h3).
          p2 \<le> p \<and> 0 \<le> n \<and> p + n \<le> width * height))"
proof (intro conjI impI)
  obtain es pos h where lp: "decodeRLE_loop (width * height) data 0 None = (es, pos, h)"
    by (cases "decodeRLE_loop (width * height) data 0 None") auto
  have "d \<noteq> 0x62" if "(p, n, d) \<in> set (decodeRLE data width height)" for p n d
  proof -
    from that lp have "(p, n, d) \<in> set es \<or> (p, n, d) \<in> set (decodeRLE_tail (width * height) pos h)"
      by (simp add: decodeRLE_def)
    then show ?thesis
      using decodeRLE_loop_colors [OF lp] decodeRLE_tail_colors by blast
  qed
  then show "\<forall>(p, n, d) \<in> set (decodeRLE data width height). d \<noteq> 0x62" by auto
next
  assume a: "even (length pre) \<and>
    decodeRLE_loop (width * height) pre 0 None = (es1, p1, h1) \<and> p1 < width * height \<and>
    decodeRLE_step (width * height) p1 h1 c' l' = (es2, p2, h2) \<and>
    decodeRLE_loop (width * height) rest p2 h2 = (es3, p3, h3)"
  then have ev: "even (length pre)"
    and l1: "decodeRLE_loop (width * height) pre 0 None = (es1, p1, h1)"
    and lt: "p1 < width * height"
    and st: "decodeRLE_step (width * height) p1 h1 c' l' = (es2, p2, h2)"
    and l3: "decodeRLE_loop (width * height) rest p2 h2 = (es3, p3, h3)"
    by simp_all
  have "decodeRLE_loop (width * height) (pre @ c' # l' # rest) 0 None = (es1 @ es2 @ es3, p3, h3)"
    using l1 lt st l3 by (simp add: decodeRLE_loop_append [OF ev])
  then show "decodeRLE (pre @ c' # l' # rest) width height =
        es1 @ es2 @ es3 @ decodeRLE_tail (width * height) p3 h3"
    by (simp add: decodeRLE_def)
  show "\<forall>(p, n, d) \<in> set es1. 0 \<le> p \<and> 0 \<le> n \<and> p + n \<le> p1"
    using decodeRLE_loop_range [OF l1] by simp
  note r2 = decodeRLE_step_range [OF lt st]
  then show "\<forall>(p, n, d) \<in> set es2. p1 \<le> p \<and> 0 \<le> n \<and> p + n \<le> p2"
    by simp
  note r3 = decodeRLE_loop_range [OF l3]
  have "p2 \<le> p \<and> 0 \<le> n \<and> p + n \<le> width * height"
    if "(p, n, d) \<in> set (es3 @ decodeRLE_tail (width * height) p3 h3)" for p n d
  proof (cases "(p, n, d) \<in> set es3")
    case True
    with r2 r3 show ?thesis by fastforce
  next
    case False
    with that have "(p, n, d) \<in> set (decodeRLE_tail (width * height) p3 h3)" by simp
    from decodeRLE_tail_range [OF this] r3 show ?thesis by simp
  qed
  then show "\<forall>(p, n, d) \<in> set (es3 @ decodeRLE_tail (width * height) p3 h3).
          p2 \<le> p \<and> 0 \<le> n \<and> p + n \<le> width * height"
    by blast
qed (simp_all add: decodeRLE_step_max decodeRLE_step_plain decodeRLE_step_hold
      decodeRLE_step_same_color decodeRLE_step_change)

theorem decodeRLE_never_emits_transparent_witness:
  "decodeRLE [0x00, 0x05, 0x62, 0x01, 0x61, 0x01] 10 1 = [(0, 6, 0x00), (8, 2, 0x61)] \<and>
   decodeRLE_loop 10 [0x00, 0x05] 0 None = ([(0, 6, 0x00)], 6, None) \<and>
   decodeRLE_step 10 6 None 0x62 0x01 = ([], 8, None) \<and>
   decodeRLE_loop 10 [0x61, 0x01] 8 None = ([(8, 2, 0x61)], 10, None) \<and>
   decodeRLE_tail 10 10 None = [] \<and>
   decodeRLE_step 20000 0 None 0x62 0x85 = ([], 0, Some (0x62, 0x85)) \<and>
   decodeRLE_step 20000 0 (Some (0x62, 0x85)) 0x61 0x02 = ([(768, 3, 0x61)], 771, None)"
  using decodeRLE_never_emits_transparent [where data = "[0x00, 0x05, 0x62, 0x01, 0x61, 0x01]"
      and width = 10 and height = 1 and pre = "[0x00, 0x05]" and c' = "0x62" and l' = "0x01"
      and rest = "[0x61, 0x01]" and ?es1.0 = "[(0, 6, 0x00)]" and ?p1.0 = 6 and ?h1.0 = None
      and ?es2.0 = "[]" and ?p2.0 = 8 and ?h2.0 = None and ?es3.0 = "[(8, 2, 0x61)]"
      and ?p3.0 = 10 and ?h3.0 = None and expected = 10 and pos = 6 and c = "0x62" and l = "0x01"]
    decodeRLE_never_emits_transparent [where expected = 20000 and pos = 0 and c = "0x61"
      and l = "0x02" and pc = "0x62" and pl = "0x85"]
    decodeRLE_never_emits_transparent [where expected = 20000 and pos = 0 and c = "0x62"
      and l = "0x85"]
  by (simp add: decodeRLE_def decodeRLE_step_def emit_clamped_def decodeRLE_tail_def
      heldRunLength_def startsHold_def)

text \<open>
  Claim C2 (amended). While \<open>decodeRLE\<close> holds a pair \<open>(c, l1)\<close> and the raster is not
  full, a next pair \<open>(c, l2)\<close> of the same colour is resolved into a single run at the
  current position, of length \<open>1 + l2 + ((l1 & 0x7f) + 1) << 7\<close> clamped to the
  remaining pixel count: that one run is emitted when \<open>c\<close> is not the transparent code
  0x62, and no run is emitted when it is. In both cases the position advances by the
  clamped length and decoding goes on with no pair held. In particular the stream
  \<open>[c, l1, c, l2]\<close>, with \<open>l1\<close> a length code that starts a hold, yields exactly that
  one run for a colour other than 0x62.
\<close>

theorem decodeRLE_hold_same_color:
  "(pos < expected \<longrightarrow>
      decodeRLE_loop expected (c # l2 # rest) pos (Some (c, l1)) =
        (let n = min (1 + uint l2 + heldRunLength l1) (expected - pos);
             (es', fin) = decodeRLE_loop expected rest (pos + n) None
         in ((if c = 0x62 then [] else [(pos, n, c)]) @ es', fin))) \<and>
   (startsHold l1 \<and> 0 < width * height \<longrightarrow>
      decodeRLE [c, l1, c, l2] width height =
        (if c = 0x62 then []
         else [(0, min (1 + uint l2 + heldRunLength l1) (width * height), c)]))"
proof (intro conjI impI)
  assume "pos < expected"
  then show "decodeRLE_loop expected (c # l2 # rest) pos (Some (c, l1)) =
        (let n = min (1 + uint l2 + heldRunLength l1) (expected - pos);
             (es', fin) = decodeRLE_loop expected rest (pos + n) None
         in ((if c = 0x62 then [] else [(pos, n, c)]) @ es', fin))"
    by (simp add: decodeRLE_step_same_color Let_def split: prod.splits)
next
  assume a: "startsHold l1 \<and> 0 < width * height"
  then have hold: "decodeRLE_step (width * height) 0 None c l1 = ([], 0, Some (c, l1))"
    by (simp add: decodeRLE_step_def startsHold_def)
  from a show "decodeRLE [c, l1, c, l2] width height =
        (if c = 0x62 then []
         else [(0, min (1 + uint l2 + heldRunLength l1) (width * height), c)])"
    by (simp add: decodeRLE_def hold decodeRLE_step_same_color decodeRLE_tail_def)
qed

theorem decodeRLE_hold_same_color_witness:
  "decodeRLE_loop 10000 [0x61, 0x00] 0 (Some (0x61, 0x80)) = ([(0, 129, 0x61)], 129, None) \<and>
   decodeRLE [0x61, 0x80, 0x61, 0x00] 100 100 = [(0, 129, 0x61)]"
  using decodeRLE_hold_same_color [where pos = 0 and expected = 10000 and c = "0x61" and
      ?l2.0 = "0x00" and rest = "[]" and ?l1.0 = "0x80" and width = 100 and height = 100]
  by (simp add: heldRunLength_def startsHold_def)

text \<open>
  The claim as it is worded fails when the repeated colour is the transparent code:
  the pair \<open>(0x62, 0x80)\<close> is held, the pair \<open>(0x62, 0x00)\<close> resolves it, and
  no run at all is emitted.
\<close>

theorem decodeRLE_hold_same_color_transparent:
  "startsHold 0x80 \<and> decodeRLE [0x62, 0x80, 0x62, 0x00] 100 100 = []"
  by (simp add: startsHold_def decodeRLE_def decodeRLE_step_def emit_clamped_def decodeRLE_tail_def)

text \<open>
  Claim C3 (amended). When the loop of \<open>decodeRLE\<close> ends with a pair \<open>(c, l)\<close> still
  held and fewer than \<open>width * height\<close> pixels covered, the runs emitted are those of
  the loop followed by one final run for \<open>c\<close> at the current position, of length
  \<open>((l & 0x7f) + 1) << 7\<close> clamped to the remaining pixel count, when \<open>c\<close> is not the
  transparent code 0x62, and by nothing when it is. In particular a stream that is a
  single held pair emits that one run, clamped to the raster size, for a colour other
  than 0x62.
\<close>

theorem decodeRLE_tail_flush:
  "(decodeRLE_loop (width * height) data 0 None = (es, pos, Some (c, l)) \<and> pos < width * height \<longrightarrow>
      decodeRLE data width height =
        es @ (if c = 0x62 then [] else [(pos, min (heldRunLength l) (width * height - pos), c)])) \<and>
   (startsHold l \<and> 0 < width * height \<longrightarrow>
      decodeRLE [c, l] width height =
        (if c = 0x62 then [] else [(0, min (heldRunLength l) (width * height), c)]))"
proof (intro conjI impI)
  assume "decodeRLE_loop (width * height) data 0 None = (es, pos, Some (c, l)) \<and> pos < width * height"
  then show "decodeRLE data width height =
        es @ (if c = 0x62 then [] else [(pos, min (heldRunLength l) (width * height - pos), c)])"
    using heldRunLength_pos [of l]
    by (auto simp: decodeRLE_def decodeRLE_tail_def heldRunLength_def Let_def min_def)
next
  assume a: "startsHold l \<and> 0 < width * height"
  then have hold: "decodeRLE_step (width * height) 0 None c l = ([], 0, Some (c, l))"
    by (simp add: decodeRLE_step_def startsHold_def)
  from a show "decodeRLE [c, l] width height =
        (if c = 0x62 then [] else [(0, min (heldRunLength l) (width * height), c)])"
    using heldRunLength_pos [of l]
    by (auto simp: decodeRLE_def hold decodeRLE_tail_def heldRunLength_def Let_def min_def)
qed

theorem decodeRLE_tail_flush_witness:
  "decodeRLE [0x00, 0x05, 0x61, 0x81] 100 100 = [(0, 6, 0x00), (6, 256, 0x61)] \<and>
   decodeRLE [0x61, 0x80] 10 10 = [(0, 100, 0x61)]"
  using decodeRLE_tail_flush [where width = 100 and height = 100 and
      data = "[0x00, 0x05, 0x61, 0x81]" and es = "[(0, 6, 0x00)]" and pos = 6 and c = "0x61" and l = "0x81"]
    decodeRLE_tail_flush [where l = "0x80" and width = 10 and height = 10 and c = "0x61"]
  by (simp add: heldRunLength_def startsHold_def decodeRLE_step_def emit_clamped_def)

text \<open>
  The claim as it is worded fails when the held colour is the transparent code: the
  stream is the single held pair \<open>(0x62, 0x80)\<close> and nothing is flushed.
\<close>

theorem decodeRLE_tail_flush_transparent:
  "startsHold 0x80 \<and> decodeRLE [0x62, 0x80] 100 100 = []"
  by (simp add: startsHold_def decodeRLE_def decodeRLE_step_def emit_clamped_def decodeRLE_tail_def)

section \<open>Properties of the fill sinks\<close>

text \<open>
  Where the three sinks are safe: on a buffer of whole pixels and with positions and run
  lengths a raster can have, \<open>fillCodes\<close> and \<open>fillRGBA\<close> return for every run
  length, however far it extends past the end of the buffer, and change the buffer only
  between the start of the run and its end clamped to the length of the buffer;
  \<open>fillRGB\<close> does so for a run that fits the buffer.
\<close>

lemma int64_id: "- (2 ^ 63) \<le> x \<Longrightarrow> x < 2 ^ 63 \<Longrightarrow> int64 x = x"
  by (simp add: int64_def)

lemma int64_le: "- (2 ^ 63) \<le> x \<Longrightarrow> int64 x \<le> x"
proof -
  assume "- (2 ^ 63) \<le> x"
  then have "0 \<le> x + 2 ^ 63" by simp
  then have "(x + 2 ^ 63) mod 2 ^ 64 \<le> x + 2 ^ 63" by (rule zmod_le_nonneg_dividend)
  then show ?thesis by (simp add: int64_def)
qed

lemma int64_dvd4: "4 dvd x \<Longrightarrow> 4 dvd int64 x"
proof -
  assume a: "4 dvd x"
  have "(4::int) dvd 2 ^ 63" by simp
  with a have "4 dvd x + 2 ^ 63" by (rule dvd_add)
  moreover have "(4::int) dvd 2 ^ 64" by simp
  ultimately have "4 dvd (x + 2 ^ 63) mod 2 ^ 64" by (simp add: dvd_mod)
  then show ?thesis unfolding int64_def using \<open>(4::int) dvd 2 ^ 63\<close> by (rule dvd_diff)
qed

lemma unchanged_outside_refl: "unchanged_outside buf buf lo hi"
  by (simp add: unchanged_outside_def)

lemma unchanged_outside_trans:
  "unchanged_outside a b lo hi \<Longrightarrow> unchanged_outside b c lo hi \<Longrightarrow> unchanged_outside a c lo hi"
  by (simp add: unchanged_outside_def)

lemma unchanged_outside_mono:
  "unchanged_outside a b lo' hi' \<Longrightarrow> lo \<le> lo' \<Longrightarrow> hi' \<le> hi \<Longrightarrow> unchanged_outside a b lo hi"
  by (auto simp: unchanged_outside_def)

lemma unchanged_outside_length: "unchanged_outside a b lo hi \<Longrightarrow> length b = length a"
  by (simp add: unchanged_outside_def)

lemma copy_slices_ok:
  assumes "0 \<le> dlo" "dlo \<le> dhi" "dhi \<le> int (length buf)"
    and "0 \<le> slo" "slo \<le> shi" "shi \<le> int (length buf)"
  shows "\<exists>buf'. copy_slices buf dlo dhi slo shi = Inr buf' \<and> unchanged_outside buf buf' dlo dhi"
proof -
  define n where "n = nat (min (dhi - dlo) (shi - slo))"
  define buf' where "buf' = take (nat dlo) buf @ take n (drop (nat slo) buf) @ drop (nat dlo + n) buf"
  have eq: "copy_slices buf dlo dhi slo shi = Inr buf'"
    using assms by (simp add: copy_slices_def n_def buf'_def Let_def)
  have n1: "nat dlo + n \<le> length buf" and n2: "nat slo + n \<le> length buf"
    and n3: "int (nat dlo + n) \<le> dhi"
    using assms by (auto simp: n_def)
  have len: "length buf' = length buf"
    using n1 n2 assms by (simp add: buf'_def)
  have nth: "buf' ! i = buf ! i" if "i < length buf" "int i < dlo \<or> dhi \<le> int i" for i
  proof -
    from that(2) consider "i < nat dlo" | "nat dlo + n \<le> i"
      using n3 assms(1) by linarith
    then show ?thesis
    proof cases
      case 1
      then show ?thesis using n1 by (simp add: buf'_def nth_append)
    next
      case 2
      have la: "length (take (nat dlo) buf) = nat dlo" using n1 by simp
      have lm: "length (take n (drop (nat slo) buf)) = n" using n2 by simp
      have "buf' ! i = ((take (nat dlo) buf @ take n (drop (nat slo) buf)) @ drop (nat dlo + n) buf) ! i"
        by (simp add: buf'_def)
      also have "\<dots> = drop (nat dlo + n) buf ! (i - (nat dlo + n))"
        using 2 la lm by (simp only: nth_append length_append) simp
      also have "\<dots> = buf ! i"
        using 2 that(1) by simp
      finally show ?thesis .
    qed
  qed
  show ?thesis using eq len nth by (auto simp: unchanged_outside_def)
qed

lemma store_safe:
  assumes "lo \<le> i" "i < hi" "0 \<le> lo" "hi \<le> int (length buf)"
  shows "\<exists>buf'. store buf i v = Inr buf' \<and> unchanged_outside buf buf' lo hi"
  using assms by (auto simp: store_def unchanged_outside_def)

lemma doubling_copy_safe:
  assumes "0 \<le> start" "endIdx \<le> int (length buf)" "int (length buf) \<le> 2 ^ 62"
    and "0 < filled" "0 \<le> unit" "bound \<le> 2 ^ 62"
    and "\<forall>f. 0 < f \<and> f < bound \<longrightarrow> start + f * unit \<le> endIdx"
  shows "\<exists>buf'. doubling_copy buf start endIdx bound unit filled = Some (Inr buf') \<and>
           unchanged_outside buf buf' start endIdx"
  using assms
proof (induction "nat (bound - filled)" arbitrary: buf filled rule: less_induct)
  case less
  show ?case
  proof (cases "filled < bound")
    case False
    then have "doubling_copy buf start endIdx bound unit filled = Some (Inr buf)"
      by (subst doubling_copy.simps) simp
    then show ?thesis
      by (simp add: unchanged_outside_refl)
  next
    case True
    have f62: "filled < 2 ^ 62" using True less.prems(6) by linarith
    have le: "start + filled * unit \<le> endIdx" using True less.prems(4,7) by blast
    have nn: "0 \<le> filled * unit" using less.prems(4,5) by simp
    have ge: "start \<le> start + filled * unit" using nn by simp
    have top: "start + filled * unit \<le> 2 ^ 62" using le less.prems(2,3) by linarith
    have "filled * unit \<le> 2 ^ 62" using top less.prems(1) by linarith
    then have "int64 (filled * unit) = filled * unit"
      using nn by (simp add: int64_id)
    then have mid: "int64 (start + int64 (filled * unit)) = start + filled * unit"
      using top ge less.prems(1) by (simp add: int64_id)
    have dbl: "int64 (filled * 2) = filled * 2"
      using f62 less.prems(4) by (simp add: int64_id)
    obtain b1 where c: "copy_slices buf (start + filled * unit) endIdx start (start + filled * unit) = Inr b1"
      and u1: "unchanged_outside buf b1 (start + filled * unit) endIdx"
      using copy_slices_ok [of "start + filled * unit" endIdx buf start "start + filled * unit"]
        le ge less.prems(1,2) by auto
    have len1: "length b1 = length buf" using u1 by (rule unchanged_outside_length)
    have m: "nat (bound - filled * 2) < nat (bound - filled)"
      using True less.prems(4) by linarith
    have p2: "endIdx \<le> int (length b1)" using less.prems(2) len1 by simp
    have p3: "int (length b1) \<le> 2 ^ 62" using less.prems(3) len1 by simp
    have p4: "0 < filled * 2" using less.prems(4) by simp
    from less.hyps [OF m less.prems(1) p2 p3 p4 less.prems(5,6,7)]
    obtain b2 where r: "doubling_copy b1 start endIdx bound unit (filled * 2) = Some (Inr b2)"
      and u2: "unchanged_outside b1 b2 start endIdx"
      by auto
    have "doubling_copy buf start endIdx bound unit filled = Some (Inr b2)"
      using True c r by (subst doubling_copy.simps) (simp only: Let_def mid dbl if_True sum.case)
    moreover have "unchanged_outside buf b2 start endIdx"
      using unchanged_outside_trans [OF unchanged_outside_mono [OF u1 ge order_refl] u2] .
    ultimately show ?thesis by blast
  qed
qed

lemma fillCodes_safe:
  assumes "0 \<le> pos" "0 \<le> count" "int (length buf) \<le> 2 ^ 62"
  shows "\<exists>buf'. fillCodes buf pos count code = Some (Inr buf') \<and>
           unchanged_outside buf buf' pos (min (pos + count) (int (length buf)))"
proof -
  define endIdx where "endIdx = min (int64 (pos + count)) (int (length buf))"
  have hi: "endIdx \<le> int (length buf)" by (simp add: endIdx_def)
  have "int64 (pos + count) \<le> pos + count" using assms(1,2) by (intro int64_le) simp
  then have sub: "endIdx \<le> min (pos + count) (int (length buf))" by (simp add: endIdx_def)
  show ?thesis
  proof (cases "pos \<ge> endIdx")
    case True
    then show ?thesis
      by (simp add: fillCodes_def endIdx_def [symmetric] unchanged_outside_refl)
  next
    case False
    obtain b1 where s1: "store buf pos code = Inr b1" and u1: "unchanged_outside buf b1 pos endIdx"
      using store_safe [of pos pos endIdx buf code] False assms hi by auto
    have l1: "length b1 = length buf" using u1 by (rule unchanged_outside_length)
    have bnd: "int64 (endIdx - pos) = endIdx - pos"
    proof (rule int64_id)
      show "- (2 ^ 63) \<le> endIdx - pos" using False by simp
      have "endIdx - pos \<le> 2 ^ 62" using hi assms(1,3) by linarith
      then show "endIdx - pos < 2 ^ 63" by simp
    qed
    obtain b2 where d: "doubling_copy b1 pos endIdx (endIdx - pos) 1 1 = Some (Inr b2)"
      and u2: "unchanged_outside b1 b2 pos endIdx"
      using doubling_copy_safe [of pos endIdx b1 1 1 "endIdx - pos"] assms hi l1 by auto
    have "fillCodes buf pos count code = Some (Inr b2)"
      using False s1 d by (simp add: fillCodes_def endIdx_def [symmetric] thenLoop_def bnd)
    moreover have "unchanged_outside buf b2 pos endIdx"
      using unchanged_outside_trans [OF u1 u2] .
    ultimately show ?thesis
      using sub unchanged_outside_mono [of buf b2 pos endIdx pos] by blast
  qed
qed

lemma fillRGBA_safe:
  assumes "0 \<le> pos" "pos * 4 < 2 ^ 63" "0 \<le> count" "4 dvd length rgba" "int (length rgba) \<le> 2 ^ 62"
  shows "\<exists>buf'. fillRGBA rgba pos count r g b alpha = Some (Inr buf') \<and>
           unchanged_outside rgba buf' (pos * 4) (min (pos * 4 + count * 4) (int (length rgba)))"
proof -
  define start where "start = pos * 4"
  define e where "e = int64 (start + int64 (count * 4))"
  define endIdx where "endIdx = min e (int (length rgba))"
  have st: "int64 (pos * 4) = start"
    using assms(1,2) by (simp add: start_def int64_id)
  have s0: "0 \<le> start" using assms(1) by (simp add: start_def)
  have c4: "int64 (count * 4) \<le> count * 4" using assms(3) by (intro int64_le) simp
  have c4lo: "- (2 ^ 63) \<le> int64 (count * 4)" by (simp add: int64_def)
  have "e \<le> start + int64 (count * 4)"
    unfolding e_def using s0 c4lo by (intro int64_le) linarith
  with c4 have e_le: "e \<le> start + count * 4" by linarith
  have e4: "4 dvd e"
    unfolding e_def by (intro int64_dvd4 dvd_add) (simp_all add: start_def)
  have hi: "endIdx \<le> int (length rgba)" by (simp add: endIdx_def)
  have sub: "endIdx \<le> min (start + count * 4) (int (length rgba))"
    using e_le by (simp add: endIdx_def)
  show ?thesis
  proof (cases "start \<ge> endIdx")
    case True
    then show ?thesis
      by (simp add: fillRGBA_def st e_def [symmetric] endIdx_def [symmetric] unchanged_outside_refl)
  next
    case False
    obtain k where k: "length rgba = 4 * k" using assms(4) by (auto simp: dvd_def)
    have "pos < int k" using False hi k by (simp add: start_def)
    then have room1: "start + 4 \<le> int (length rgba)" using k by (simp add: start_def)
    obtain j where j: "e = 4 * j" using e4 by (auto simp: dvd_def)
    have "start < e" using False by (simp add: endIdx_def)
    then have "pos < j" using j by (simp add: start_def)
    then have "start + 4 \<le> e" using j by (simp add: start_def)
    with room1 have room: "start + 4 \<le> endIdx" by (simp add: endIdx_def)
    have small: "start + 4 \<le> 2 ^ 62" using room1 assms(5) by linarith
    have i1: "int64 (start + 1) = start + 1" and i2: "int64 (start + 2) = start + 2"
      and i3: "int64 (start + 3) = start + 3"
      using s0 small by (simp_all add: int64_id)
    have bnd: "int64 (endIdx - start) = endIdx - start"
    proof (rule int64_id)
      show "- (2 ^ 63) \<le> endIdx - start" using False by simp
      have "endIdx - start \<le> 2 ^ 62" using hi s0 assms(5) by linarith
      then show "endIdx - start < 2 ^ 63" by simp
    qed
    obtain b1 where s1: "store rgba start r = Inr b1" and u1: "unchanged_outside rgba b1 start endIdx"
      using store_safe [of start start endIdx rgba r] room s0 hi by auto
    have l1: "length b1 = length rgba" using u1 by (rule unchanged_outside_length)
    obtain b2 where s2: "store b1 (start + 1) g = Inr b2" and u2: "unchanged_outside b1 b2 start endIdx"
      using store_safe [of start "start + 1" endIdx b1 g] room s0 hi l1 by auto
    have l2: "length b2 = length rgba" using u2 l1 by (simp add: unchanged_outside_length)
    obtain b3 where s3: "store b2 (start + 2) b = Inr b3" and u3: "unchanged_outside b2 b3 start endIdx"
      using store_safe [of start "start + 2" endIdx b2 b] room s0 hi l2 by auto
    have l3: "length b3 = length rgba" using u3 l2 by (simp add: unchanged_outside_length)
    obtain b4 where s4: "store b3 (start + 3) alpha = Inr b4" and u4: "unchanged_outside b3 b4 start endIdx"
      using store_safe [of start "start + 3" endIdx b3 alpha] room s0 hi l3 by auto
    have l4: "length b4 = length rgba" using u4 l3 by (simp add: unchanged_outside_length)
    obtain b5 where d: "doubling_copy b4 start endIdx (endIdx - start) 1 4 = Some (Inr b5)"
      and u5: "unchanged_outside b4 b5 start endIdx"
      using doubling_copy_safe [of start endIdx b4 4 1 "endIdx - start"] s0 hi l4 assms(5) by auto
    have "fillRGBA rgba pos count r g b alpha = Some (Inr b5)"
      using False s1 s2 s3 s4 d
      by (simp add: fillRGBA_def st e_def [symmetric] endIdx_def [symmetric] andThen_def
          thenLoop_def i1 i2 i3 bnd)
    moreover have "unchanged_outside rgba b5 start endIdx"
      using u1 u2 u3 u4 u5 by (blast intro: unchanged_outside_trans)
    ultimately show ?thesis
      using sub unchanged_outside_mono [of rgba b5 start endIdx start]
      unfolding start_def by blast
  qed
qed

lemma fillRGB_safe:
  assumes "0 \<le> pos" "0 \<le> count" "(pos + count) * 3 \<le> int (length rgb)"
    and "int (length rgb) \<le> 2 ^ 62"
  shows "\<exists>buf'. fillRGB rgb pos count r g b = Some (Inr buf') \<and>
           unchanged_outside rgb buf' (pos * 3) (pos * 3 + count * 3)"
proof -
  define start where "start = pos * 3"
  define endIdx where "endIdx = start + count * 3"
  have s0: "0 \<le> start" using assms(1) by (simp add: start_def)
  have hi: "endIdx \<le> int (length rgb)"
    using assms(3) by (simp add: endIdx_def start_def algebra_simps)
  have e62: "endIdx \<le> 2 ^ 62" using hi assms(4) by linarith
  have c0: "0 \<le> count * 3" using assms(2) by simp
  have se: "start \<le> endIdx" using c0 by (simp add: endIdx_def)
  have st: "int64 (pos * 3) = start"
    using s0 se e62 by (simp add: start_def [symmetric] int64_id)
  have "count * 3 \<le> 2 ^ 62" using e62 s0 by (simp add: endIdx_def)
  then have ct: "int64 (count * 3) = count * 3"
    using c0 by (simp add: int64_id)
  have "0 \<le> endIdx" using s0 se by linarith
  then have "int64 endIdx = endIdx" using e62 by (simp add: int64_id)
  then have en: "min (int64 (start + count * 3)) (int (length rgb)) = endIdx"
    using hi by (simp add: endIdx_def [symmetric])
  have n: "int64 (endIdx - start) = count * 3"
    using ct by (simp add: endIdx_def)
  show ?thesis
  proof (cases "count * 3 \<le> 0")
    case True
    then show ?thesis
      by (simp add: fillRGB_def st ct en n unchanged_outside_refl)
  next
    case False
    then have "1 \<le> count" by simp
    then have room: "start + 3 \<le> endIdx" by (simp add: endIdx_def)
    have small: "start + 3 \<le> 2 ^ 62" using room e62 by linarith
    have i1: "int64 (start + 1) = start + 1" and i2: "int64 (start + 2) = start + 2"
      using s0 small by (simp_all add: int64_id)
    have c62: "count \<le> 2 ^ 62" using \<open>count * 3 \<le> 2 ^ 62\<close> assms(2) by linarith
    obtain b1 where s1: "store rgb start r = Inr b1" and u1: "unchanged_outside rgb b1 start endIdx"
      using store_safe [of start start endIdx rgb r] room s0 hi by auto
    have l1: "length b1 = length rgb" using u1 by (rule unchanged_outside_length)
    obtain b2 where s2: "store b1 (start + 1) g = Inr b2" and u2: "unchanged_outside b1 b2 start endIdx"
      using store_safe [of start "start + 1" endIdx b1 g] room s0 hi l1 by auto
    have l2: "length b2 = length rgb" using u2 l1 by (simp add: unchanged_outside_length)
    obtain b3 where s3: "store b2 (start + 2) b = Inr b3" and u3: "unchanged_outside b2 b3 start endIdx"
      using store_safe [of start "start + 2" endIdx b2 b] room s0 hi l2 by auto
    have l3: "length b3 = length rgb" using u3 l2 by (simp add: unchanged_outside_length)
    have fit: "\<forall>f. 0 < f \<and> f < count \<longrightarrow> start + f * 3 \<le> endIdx"
      by (simp add: endIdx_def)
    obtain b4 where d: "doubling_copy b3 start endIdx count 3 1 = Some (Inr b4)"
      and u4: "unchanged_outside b3 b4 start endIdx"
      using doubling_copy_safe [of start endIdx b3 1 3 count] s0 hi l3 assms(4) c62 fit by auto
    have "fillRGB rgb pos count r g b = Some (Inr b4)"
      using False s1 s2 s3 d
      by (simp add: fillRGB_def st ct en n andThen_def thenLoop_def i1 i2)
    moreover have "unchanged_outside rgb b4 start endIdx"
      using u1 u2 u3 u4 by (blast intro: unchanged_outside_trans)
    ultimately show ?thesis
      unfolding start_def endIdx_def by blast
  qed
qed

text \<open>
  The sinks store one whole pixel after the test of the start against the clamped end, and
  they compute the start by a multiplication that wraps around: a buffer that ends inside
  a pixel and a position of 2^61 or more make them panic. Every caller passes a buffer of
  \<open>width * height\<close> pixels and a position inside it.
\<close>

lemma fill_sinks_outside_their_domain:
  "fillRGBA [0, 0] 0 1 1 2 3 4 = Some (Inl IndexOutOfRange)"
  "fillRGBA [0, 0, 0, 0] (2 ^ 61) 1 1 2 3 4 = Some (Inl IndexOutOfRange)"
  "fillRGB [0, 0, 0] (2 ^ 62) 1 1 2 3 = Some (Inl IndexOutOfRange)"
  by (simp_all add: fillRGBA_def fillRGB_def int64_def store_def andThen_def thenLoop_def)

text \<open>
  Claim C9 does not hold of \<open>fillRGB\<close>. The claim asks each sink to clamp a run that
  extends past the end of the buffer and to keep its doubling loop inside the slice.
  \<open>fillRGBA\<close> and \<open>fillCodes\<close> bound the loop by the clamped length \<open>end - start\<close>;
  \<open>fillRGB\<close> computes the clamped length \<open>n\<close> too, but bounds the loop by \<open>count\<close>,
  the length before clamping. On a buffer of two pixels and a run of five pixels from
  position 0 the loop of \<open>fillRGB\<close> reaches \<open>filled = 4\<close> and the slice expression
  \<open>rgb[12:6]\<close>, which panics, where the two other sinks fill the two pixels they are
  given and return.
\<close>

theorem fillRGB_overrun_panics:
  "fillRGB [0, 0, 0, 0, 0, 0] 0 5 1 2 3 = Some (Inl SliceBoundsOutOfRange) \<and>
   fillRGBA [0, 0, 0, 0, 0, 0, 0, 0] 0 5 1 2 3 4 = Some (Inr [1, 2, 3, 4, 1, 2, 3, 4]) \<and>
   fillCodes [0, 0] 0 5 7 = Some (Inr [7, 7])"
  by (simp add: fillRGB_def fillRGBA_def fillCodes_def int64_def store_def andThen_def
      thenLoop_def doubling_copy.simps copy_slices_def)

section \<open>Properties of the order of the tone layers\<close>

lemma markerFirst_neg: "markerFirst x y < 0 \<longleftrightarrow> layer_alpha x < 255 \<and> \<not> layer_alpha y < 255"
  by (simp add: markerFirst_def Let_def)

lemma moveLeft_ink:
  "\<not> layer_alpha x < 255 \<Longrightarrow> moveLeft markerFirst x before = x # before"
  by (cases before) (simp_all add: markerFirst_neg)

lemma moveLeft_marker:
  assumes "layer_alpha x < 255" "\<forall>y \<in> set inks. \<not> layer_alpha y < 255" "\<forall>y \<in> set markers. layer_alpha y < 255"
  shows "moveLeft markerFirst x (inks @ markers) = inks @ x # markers"
  using assms
proof (induction inks)
  case Nil
  then show ?case by (cases markers) (simp_all add: markerFirst_neg)
next
  case (Cons y inks)
  then show ?case by (simp add: markerFirst_neg)
qed

lemma insertion_step:
  "rev (moveLeft markerFirst x (rev (filter (\<lambda>l. layer_alpha l < 255) pre @ filter (\<lambda>l. \<not> layer_alpha l < 255) pre))) =
     filter (\<lambda>l. layer_alpha l < 255) (pre @ [x]) @ filter (\<lambda>l. \<not> layer_alpha l < 255) (pre @ [x])"
proof (cases "layer_alpha x < 255")
  case True
  have "moveLeft markerFirst x (rev (filter (\<lambda>l. \<not> layer_alpha l < 255) pre) @ rev (filter (\<lambda>l. layer_alpha l < 255) pre))
      = rev (filter (\<lambda>l. \<not> layer_alpha l < 255) pre) @ x # rev (filter (\<lambda>l. layer_alpha l < 255) pre)"
    by (rule moveLeft_marker) (use True in auto)
  then show ?thesis using True by simp
next
  case False
  then show ?thesis by (simp add: moveLeft_ink)
qed

lemma foldl_insertion:
  "foldl (\<lambda>sorted x. rev (moveLeft markerFirst x (rev sorted)))
      (filter (\<lambda>l. layer_alpha l < 255) pre @ filter (\<lambda>l. \<not> layer_alpha l < 255) pre) data =
   filter (\<lambda>l. layer_alpha l < 255) (pre @ data) @ filter (\<lambda>l. \<not> layer_alpha l < 255) (pre @ data)"
proof (induction data arbitrary: pre)
  case Nil
  then show ?case by simp
next
  case (Cons x data)
  have "foldl (\<lambda>sorted x. rev (moveLeft markerFirst x (rev sorted)))
      (filter (\<lambda>l. layer_alpha l < 255) pre @ filter (\<lambda>l. \<not> layer_alpha l < 255) pre) (x # data) =
    foldl (\<lambda>sorted x. rev (moveLeft markerFirst x (rev sorted)))
      (filter (\<lambda>l. layer_alpha l < 255) (pre @ [x]) @ filter (\<lambda>l. \<not> layer_alpha l < 255) (pre @ [x])) data"
    by (simp only: foldl_Cons insertion_step)
  also have "\<dots> = filter (\<lambda>l. layer_alpha l < 255) ((pre @ [x]) @ data) @ filter (\<lambda>l. \<not> layer_alpha l < 255) ((pre @ [x]) @ data)"
    by (rule Cons.IH)
  finally show ?case by simp
qed

text \<open>
  Claim C8. The final sort of \<open>renderContentColorLayers\<close> is stable and partitions the
  layers by opacity class: the result is the layers with \<open>alpha < 255\<close> (markers), in
  the order in which they were appended, followed by the layers with \<open>alpha = 255\<close>
  (ink), in the order in which they were appended.
\<close>

theorem sortColorLayers_partition:
  "sortColorLayers layers =
     filter (\<lambda>l. layer_alpha l < 255) layers @ filter (\<lambda>l. \<not> layer_alpha l < 255) layers"
  using foldl_insertion [of "[]" layers]
  by (simp add: sortColorLayers_def SortStableFunc_def insertionSortCmpFunc_def)

section \<open>Properties of the metadata block parser\<close>

lemma findColon_key:
  "plainKey key \<Longrightarrow> findColon (key @ CHR '':'' # rest) = Some (length key)"
  by (induction key) (auto simp: plainKey_def)

lemma findColon_junk:
  "plainKey junk \<Longrightarrow> d = CHR ''<'' \<or> d = CHR ''>'' \<Longrightarrow> findColon (junk @ d # rest) = None"
  by (induction junk) (auto simp: plainKey_def)

lemma findColon_end: "plainKey junk \<Longrightarrow> findColon junk = None"
  by (induction junk) (auto simp: plainKey_def)

lemma findClose_value:
  "CHR ''>'' \<notin> set v \<Longrightarrow> findClose (v @ CHR ''>'' # rest) = Some (length v)"
  by (induction v) auto

lemma findClose_end: "CHR ''>'' \<notin> set v \<Longrightarrow> findClose v = None"
  by (induction v) auto

lemma parseRecords_skip:
  "CHR ''<'' \<notin> set pre \<Longrightarrow> parseRecords m (pre @ rest) = parseRecords m rest"
  by (induction pre) (auto simp: parseRecords.simps)

lemma parseRecords_record:
  assumes "plainKey key" "CHR ''>'' \<notin> set v"
  shows "parseRecords m (CHR ''<'' # key @ CHR '':'' # v @ CHR ''>'' # rest) =
           parseRecords (m(key \<mapsto> v)) rest"
  using assms
  by (simp add: parseRecords.simps(2) findColon_key findClose_value)

lemma parseRecords_no_colon:
  assumes "plainKey junk" "d = CHR ''<'' \<or> d = CHR ''>''"
  shows "parseRecords m (CHR ''<'' # junk @ d # rest) = parseRecords m (d # rest)"
proof -
  have "parseRecords m (CHR ''<'' # junk @ d # rest) = parseRecords m (junk @ d # rest)"
    using assms by (simp add: parseRecords.simps(2) findColon_junk)
  also have "\<dots> = parseRecords m (d # rest)"
    using assms(1) by (intro parseRecords_skip) (simp add: plainKey_def)
  finally show ?thesis .
qed

lemma parseRecords_no_colon_end:
  assumes "plainKey junk"
  shows "parseRecords m (CHR ''<'' # junk) = m"
proof -
  have "parseRecords m (CHR ''<'' # junk) = parseRecords m junk"
    using assms by (simp add: parseRecords.simps(2) findColon_end)
  also have "\<dots> = parseRecords m (junk @ [])" by simp
  also have "\<dots> = parseRecords m []"
    using assms by (intro parseRecords_skip) (simp add: plainKey_def)
  finally show ?thesis by (simp add: parseRecords.simps)
qed

lemma parseRecords_no_close:
  assumes "plainKey key" "CHR ''>'' \<notin> set v"
  shows "parseRecords m (CHR ''<'' # key @ CHR '':'' # v) = m"
  using assms
  by (simp add: parseRecords.simps(2) findColon_key findClose_end)

lemma parseRecords_serialize:
  assumes "\<forall>kv \<in> set kvs. plainKey (fst kv) \<and> CHR ''>'' \<notin> set (snd kv)"
  shows "parseRecords m (serialize kvs @ rest) = parseRecords (foldl (\<lambda>m kv. m(fst kv \<mapsto> snd kv)) m kvs) rest"
  using assms
proof (induction kvs arbitrary: m)
  case Nil
  then show ?case by (simp add: serialize_def)
next
  case (Cons kv kvs)
  have "parseRecords m (serialize (kv # kvs) @ rest) =
        parseRecords m (CHR ''<'' # fst kv @ CHR '':'' # snd kv @ CHR ''>'' # (serialize kvs @ rest))"
    by (simp add: serialize_def record_bytes_def)
  also have "\<dots> = parseRecords (m(fst kv \<mapsto> snd kv)) (serialize kvs @ rest)"
    using Cons.prems by (intro parseRecords_record) auto
  also have "\<dots> = parseRecords (foldl (\<lambda>m kv. m(fst kv \<mapsto> snd kv)) (m(fst kv \<mapsto> snd kv)) kvs) rest"
    using Cons.prems by (intro Cons.IH) auto
  finally show ?case by (simp only: foldl_Cons)
qed

lemma le32_put32: "n < 2 ^ 32 \<Longrightarrow> le32 (put32 n) = n"
proof -
  assume lt: "n < 2 ^ 32"
  define a where "a = n div 256"
  define b where "b = a div 256"
  define c where "c = b div 256"
  have n: "n = n mod 256 + 256 * a" by (simp add: a_def)
  have a: "a = a mod 256 + 256 * b" by (simp add: b_def)
  have b: "b = b mod 256 + 256 * c" by (simp add: c_def)
  have c: "c < 256" using lt by (simp add: a_def b_def c_def div_mult2_eq)
  have d2: "n div 65536 = b" by (simp add: a_def b_def div_mult2_eq)
  have d3: "n div 16777216 = c" by (simp add: a_def b_def c_def div_mult2_eq)
  have "le32 (put32 n) = n mod 256 + 256 * (a mod 256) + 65536 * (b mod 256) + 16777216 * (c mod 256)"
    by (simp add: le32_def put32_def d2 d3 a_def [symmetric])
  also have "\<dots> = n mod 256 + 256 * (a mod 256) + 65536 * (b mod 256) + 16777216 * c"
    using c by simp
  also have "\<dots> = n mod 256 + 256 * (a mod 256 + 256 * (b mod 256 + 256 * c))"
    by simp
  also have "\<dots> = n"
    using n a b by simp
  finally show ?thesis .
qed


lemma parseMetadataBlock_block:
  assumes "addr \<noteq> 0" "0 \<le> sint addr" "length pre = unat addr" "length buf < 2 ^ 32"
  shows "parseMetadataBlock (pre @ put32 (length buf) @ buf @ post) addr =
           Inr (parseRecords Map.empty buf)"
proof -
  have l4: "length (put32 (length buf)) = 4" by (simp add: put32_def)
  have r1: "readUint32 (pre @ put32 (length buf) @ buf @ post) (unat addr) = Inr (length buf)"
    using assms(3,4) l4 by (simp add: readUint32_def readFull_def le32_put32)
  have r2: "readFull (pre @ put32 (length buf) @ buf @ post) (unat addr + 4) (length buf) = Inr buf"
    using assms(3) l4 by (simp add: readFull_def)
  show ?thesis
    using assms(1,2) r1 r2 by (simp add: parseMetadataBlock_def)
qed

lemma parseRecords_examples:
  "parseRecords Map.empty ''xx<A<B:2>>>><C:3'' ''B'' = Some ''2''"
  "parseRecords Map.empty ''xx<A<B:2>>>><C:3'' ''C'' = None"
  "parseRecords Map.empty ''<A:1<B:2>'' ''A'' = Some ''1<B:2''"
  by (simp_all add: parseRecords.simps)

text \<open>
  Claim C6. For a block stored at a non-zero address (address 0 stands for an absent
  block and yields the empty map without any read), \<open>parseMetadataBlock\<close> returns a map
  and no error, whatever the bytes of the block are. The map is built record by record:
  \<^item> bytes before an opening bracket are skipped, and a record \<open><KEY:VALUE>\<close> whose key
    has no \<open>:\<close>, \<open><\<close>, \<open>>\<close> and whose value has no \<open>>\<close> is entered in the map, parsing
    going on after its closing bracket;
  \<^item> a record with no \<open>:\<close> before the next \<open><\<close> or \<open>>\<close> is skipped and parsing goes on
    at that byte; one with no \<open>:\<close> before the end of the block leaves the map as it is;
  \<^item> a record with a separator and no closing \<open>>\<close> ends the parsing, and the map built
    up to that point is returned;
  \<^item> the records of a serialized list of well-formed pairs are all found, a later
    pair replacing an earlier one of the same key.
\<close>

theorem parseMetadataBlock_tolerant:
  "(addr \<noteq> 0 \<and> 0 \<le> sint addr \<and> length pre = unat addr \<and> length buf < 2 ^ 32 \<longrightarrow>
      parseMetadataBlock (pre @ put32 (length buf) @ buf @ post) addr =
        Inr (parseRecords Map.empty buf)) \<and>
   (CHR ''<'' \<notin> set skip \<and> plainKey key \<and> CHR ''>'' \<notin> set v \<longrightarrow>
      parseRecords m (skip @ CHR ''<'' # key @ CHR '':'' # v @ CHR ''>'' # rest) =
        parseRecords (m(key \<mapsto> v)) rest) \<and>
   (CHR ''<'' \<notin> set skip \<and> plainKey junk \<and> (d = CHR ''<'' \<or> d = CHR ''>'') \<longrightarrow>
      parseRecords m (skip @ CHR ''<'' # junk @ d # rest) = parseRecords m (d # rest)) \<and>
   (CHR ''<'' \<notin> set skip \<and> plainKey junk \<longrightarrow>
      parseRecords m (skip @ CHR ''<'' # junk) = m) \<and>
   (CHR ''<'' \<notin> set skip \<and> plainKey key \<and> CHR ''>'' \<notin> set v \<longrightarrow>
      parseRecords m (skip @ CHR ''<'' # key @ CHR '':'' # v) = m) \<and>
   ((\<forall>kv \<in> set kvs. plainKey (fst kv) \<and> CHR ''>'' \<notin> set (snd kv)) \<longrightarrow>
      parseRecords Map.empty (serialize kvs) = foldl (\<lambda>m kv. m(fst kv \<mapsto> snd kv)) Map.empty kvs)"
proof (intro conjI impI)
  assume "addr \<noteq> 0 \<and> 0 \<le> sint addr \<and> length pre = unat addr \<and> length buf < 2 ^ 32"
  then show "parseMetadataBlock (pre @ put32 (length buf) @ buf @ post) addr =
        Inr (parseRecords Map.empty buf)"
    by (simp add: parseMetadataBlock_block)
next
  assume "CHR ''<'' \<notin> set skip \<and> plainKey key \<and> CHR ''>'' \<notin> set v"
  then show "parseRecords m (skip @ CHR ''<'' # key @ CHR '':'' # v @ CHR ''>'' # rest) =
        parseRecords (m(key \<mapsto> v)) rest"
    by (simp add: parseRecords_skip parseRecords_record)
next
  assume "CHR ''<'' \<notin> set skip \<and> plainKey junk \<and> (d = CHR ''<'' \<or> d = CHR ''>'')"
  then show "parseRecords m (skip @ CHR ''<'' # junk @ d # rest) = parseRecords m (d # rest)"
    by (simp add: parseRecords_skip parseRecords_no_colon)
next
  assume "CHR ''<'' \<notin> set skip \<and> plainKey junk"
  then show "parseRecords m (skip @ CHR ''<'' # junk) = m"
    by (simp add: parseRecords_skip parseRecords_no_colon_end)
next
  assume "CHR ''<'' \<notin> set skip \<and> plainKey key \<and> CHR ''>'' \<notin> set v"
  then show "parseRecords m (skip @ CHR ''<'' # key @ CHR '':'' # v) = m"
    by (simp add: parseRecords_skip parseRecords_no_close)
next
  assume "\<forall>kv \<in> set kvs. plainKey (fst kv) \<and> CHR ''>'' \<notin> set (snd kv)"
  then show "parseRecords Map.empty (serialize kvs) = foldl (\<lambda>m kv. m(fst kv \<mapsto> snd kv)) Map.empty kvs"
    using parseRecords_serialize [of kvs Map.empty "[]"] by (simp add: parseRecords.simps)
qed

theorem parseMetadataBlock_tolerant_witness:
  "parseMetadataBlock (''abcd'' @ put32 (length ''<A:1><B:2>'') @ ''<A:1><B:2>'' @ ''zz'') 4 =
     Inr (parseRecords Map.empty ''<A:1><B:2>'') \<and>
   parseRecords Map.empty (''xy'' @ CHR ''<'' # ''A'' @ CHR '':'' # ''1'' @ CHR ''>'' # ''<B:2>'') =
     parseRecords [''A'' \<mapsto> ''1''] ''<B:2>'' \<and>
   parseRecords Map.empty (''xy'' @ CHR ''<'' # ''junk'' @ CHR ''<'' # ''<B:2>'') =
     parseRecords Map.empty (CHR ''<'' # ''<B:2>'') \<and>
   parseRecords Map.empty (''xy'' @ CHR ''<'' # ''junk'') = Map.empty \<and>
   parseRecords Map.empty (''xy'' @ CHR ''<'' # ''A'' @ CHR '':'' # ''1'') = Map.empty \<and>
   parseRecords Map.empty (serialize [(''A'', ''1''), (''B'', ''2'')]) =
     foldl (\<lambda>m kv. m(fst kv \<mapsto> snd kv)) Map.empty [(''A'', ''1''), (''B'', ''2'')]"
proof -
  have h1: "(4 :: 64 word) \<noteq> 0 \<and> 0 \<le> sint (4 :: 64 word) \<and> length ''abcd'' = unat (4 :: 64 word) \<and>
      length ''<A:1><B:2>'' < 2 ^ 32"
    by simp
  have h2: "CHR ''<'' \<notin> set ''xy'' \<and> plainKey ''A'' \<and> CHR ''>'' \<notin> set ''1''"
    by (simp add: plainKey_def)
  have h3: "CHR ''<'' \<notin> set ''xy'' \<and> plainKey ''junk'' \<and> (CHR ''<'' = CHR ''<'' \<or> CHR ''<'' = CHR ''>'')"
    by (simp add: plainKey_def)
  have h4: "\<forall>kv \<in> set [(''A'', ''1''), (''B'', ''2'')]. plainKey (fst kv) \<and> CHR ''>'' \<notin> set (snd kv)"
    by (simp add: plainKey_def)
  show ?thesis
    using parseMetadataBlock_tolerant [where addr = 4 and pre = "''abcd''" and buf = "''<A:1><B:2>''"
      and post = "''zz''" and skip = "''xy''" and key = "''A''" and v = "''1''" and m = Map.empty
      and rest = "''<B:2>''" and junk = "''junk''" and d = "CHR ''<''"
      and kvs = "[(''A'', ''1''), (''B'', ''2'')]"] h1 h2 h3 h4
    by blast
qed

section \<open>Properties of the rounding and of the palette\<close>

lemma round_half_even_of_int [simp]: "round_half_even (of_int k) = k"
  by (simp add: round_half_even_def)

lemma binade_of_int:
  assumes "0 < n"
  shows "binade (of_int n) = bitlen n - 1"
proof -
  have "(2::int) ^ nat (bitlen n - 1) \<le> n"
    using bitlen_bounds [OF assms] by simp
  then have "(of_int ((2::int) ^ nat (bitlen n - 1)) :: rat) \<le> of_int n"
    by (simp only: of_int_le_iff)
  moreover have "0 \<le> bitlen n - 1"
    using assms by (simp add: bitlen_alt_def)
  ultimately have "(2::rat) powi (bitlen n - 1) \<le> of_int n"
    by (simp add: power_int_def)
  moreover have "bitlen 1 = 1" by (simp add: bitlen_alt_def)
  ultimately show ?thesis
    by (simp add: binade_def)
qed

lemma f64_round_of_int:
  assumes "\<bar>n\<bar> < 2 ^ 53"
  shows "f64_round (of_int n) = of_int n"
proof (cases "n = 0")
  case True
  then show ?thesis by (simp add: f64_round_def)
next
  case False
  then have pos: "0 < \<bar>n\<bar>" by simp
  define e where "e = bitlen \<bar>n\<bar> - 1"
  have abs: "\<bar>of_int n :: rat\<bar> = of_int \<bar>n\<bar>" by simp
  have b: "binade \<bar>of_int n :: rat\<bar> = e"
    unfolding abs e_def by (rule binade_of_int [OF pos])
  have "bitlen \<bar>n\<bar> \<le> 53"
    using assms by (simp add: bitlen_le_iff_power)
  moreover have "1 \<le> bitlen \<bar>n\<bar>"
    using pos by (simp add: bitlen_alt_def)
  ultimately have e: "0 \<le> e" "e \<le> 52" by (simp_all add: e_def)
  define k where "k = nat (52 - e)"
  have u: "(2::rat) powi (e - 52) = 1 / 2 ^ k"
    using e by (simp add: power_int_def k_def field_simps nat_diff_distrib')
  have q: "(of_int n :: rat) / (1 / 2 ^ k) = of_int (n * 2 ^ k)"
    by simp
  have "f64_round (of_int n) = of_int (round_half_even (of_int n / (1 / 2 ^ k))) * (1 / 2 ^ k)"
    using False e by (simp add: f64_round_def b u Let_def max_def)
  also have "\<dots> = of_int (n * 2 ^ k) * (1 / 2 ^ k)"
    by (simp only: q round_half_even_of_int)
  also have "\<dots> = of_int n" by simp
  finally show ?thesis .
qed

lemma foldl_fun_upd:
  "foldl (\<lambda>cs j. cs(j := g j)) cs js k = (if k \<in> set js then g k else cs k)"
  by (induction js arbitrary: cs) auto

lemma fillSegment_apply:
  "fillSegment startA endA cs k =
     (if fst startA \<le> k \<and> k \<le> fst endA then segmentEntry startA endA k else cs k)"
  by (auto simp: fillSegment_def foldl_fun_upd)

lemma f64_round_0 [simp]: "f64_round 0 = 0"
  by (simp add: f64_round_def)

lemma f64_round_1 [simp]: "f64_round 1 = 1"
  using f64_round_of_int [of 1] by simp

lemma byte_of_f64_of_int: "byte_of_f64 (of_int n) = word_of_int n"
  by (simp add: byte_of_f64_def)

lemma interpolate_ints:
  assumes "0 \<le> a" "a < 256" "0 \<le> b" "b < 256"
  shows "byte_of_f64 (f64_add (f64_of_int a) (f64_mul 0 (f64_of_int (b - a)))) = word_of_int a"
    and "byte_of_f64 (f64_add (f64_of_int a) (f64_mul 1 (f64_of_int (b - a)))) = word_of_int b"
proof -
  have ra: "f64_round (of_int a) = of_int a"
    using assms by (intro f64_round_of_int) simp
  have rb: "f64_round (of_int b) = of_int b"
    using assms by (intro f64_round_of_int) simp
  have rd: "f64_round (of_int (b - a)) = of_int (b - a)"
    using assms by (intro f64_round_of_int) simp
  show "byte_of_f64 (f64_add (f64_of_int a) (f64_mul 0 (f64_of_int (b - a)))) = word_of_int a"
    by (simp add: f64_add_def f64_mul_def f64_of_int_def ra byte_of_f64_of_int)
  have "f64_add (f64_of_int a) (f64_mul 1 (f64_of_int (b - a))) = f64_round (of_int a + of_int (b - a))"
    by (simp only: f64_add_def f64_mul_def f64_of_int_def ra rd mult_1)
  also have "\<dots> = of_int b"
    using rb by simp
  finally show "byte_of_f64 (f64_add (f64_of_int a) (f64_mul 1 (f64_of_int (b - a)))) = word_of_int b"
    by (simp only: byte_of_f64_of_int)
qed

lemma uint_byte_range: "0 \<le> uint (x :: byte)" "uint (x :: byte) < 256"
  using uint_bounded [of x] by simp_all

lemma interpolate_0: "interpolate s e 0 = s"
  unfolding interpolate_def
  by (simp only: interpolate_ints(1) [OF uint_byte_range uint_byte_range] word_of_int_uint)

lemma interpolate_1: "interpolate s e 1 = e"
  unfolding interpolate_def
  by (simp only: interpolate_ints(2) [OF uint_byte_range uint_byte_range] word_of_int_uint)

lemma segmentEntry_start: "segmentEntry (s, c) (e, c') s = c"
  by (cases c; cases c') (simp add: segmentEntry_def f64_div_def f64_of_int_def interpolate_0)

lemma segmentEntry_end:
  assumes "s < e" "e < 2 ^ 53"
  shows "segmentEntry (s, c) (e, c') e = c'"
proof -
  have "\<bar>int e - int s\<bar> < 2 ^ 53" using assms by simp
  then have "f64_of_int (int e - int s) = of_int (int e - int s)"
    unfolding f64_of_int_def by (rule f64_round_of_int)
  moreover have "(of_int (int e - int s) :: rat) \<noteq> 0" using assms(1) by simp
  ultimately have "f64_div (f64_of_int (int e - int s)) (f64_of_int (int e - int s)) = 1"
    by (simp add: f64_div_def)
  then show ?thesis
    by (cases c; cases c') (simp add: segmentEntry_def interpolate_1)
qed


lemma segments_upt: "[0 ..< length [a, b, c, d] - 1] = [0, 1, 2]"
proof -
  have "[0 ..< Suc (Suc (Suc 0))] = [0, 1, 2]" by (simp add: upt_conv_Cons)
  then show ?thesis by (simp add: numeral_3_eq_3)
qed

lemma nth_anchor:
  "[a, b, c, d] ! 0 = a" "[a, b, c, d] ! (0 + 1) = b" "[a, b, c, d] ! 1 = b"
  "[a, b, c, d] ! (1 + 1) = c" "[a, b, c, d] ! 2 = c" "[a, b, c, d] ! (2 + 1) = d"
  by simp_all

lemma interpolated_anchors:
  fixes black darkGray lightGray white :: rgb
  defines "c0 \<equiv> interpolateAnchors [(0, black), (157, darkGray), (201, lightGray), (255, white)]"
  shows "c0 0 = black" "c0 157 = darkGray" "c0 201 = lightGray" "c0 255 = white"
proof -
  have c0: "c0 = fillSegment (201, lightGray) (255, white)
                  (fillSegment (157, darkGray) (201, lightGray)
                    (fillSegment (0, black) (157, darkGray) (\<lambda>j. (0, 0, 0))))"
    unfolding c0_def interpolateAnchors_def by (simp only: segments_upt nth_anchor foldl.simps)
  show "c0 0 = black"
    by (simp add: c0 fillSegment_apply segmentEntry_start)
  show "c0 157 = darkGray"
    by (simp add: c0 fillSegment_apply segmentEntry_start)
  show "c0 201 = lightGray"
    by (simp add: c0 fillSegment_apply segmentEntry_start)
  show "c0 255 = white"
    by (simp add: c0 fillSegment_apply segmentEntry_end)
qed

lemma aliasColors_anchor:
  "aliasColors c 0 = c 0" "aliasColors c 157 = c 157" "aliasColors c 201 = c 201"
  "aliasColors c 255 = c 255"
  by (simp_all add: aliasColors_def Let_def)

lemma markerAlphas_marker:
  "markerAlphas m 0x66 = (if byte_of_f64 (f64_mul m 255) = 0 then 0x26 else byte_of_f64 (f64_mul m 255))"
  "markerAlphas m 0x67 = (if byte_of_f64 (f64_mul m 255) = 0 then 0x26 else byte_of_f64 (f64_mul m 255))"
  "markerAlphas m 0x68 = (if byte_of_f64 (f64_mul m 255) = 0 then 0x26 else byte_of_f64 (f64_mul m 255))"
  by (simp_all add: markerAlphas_def Let_def)

lemma parseHexColor_examples:
  "parseHexColor ''#9D9D9D'' = Inr (157, 157, 157)"
  "parseHexColor ''c9c9c9'' = Inr (201, 201, 201)"
  "parseHexColor ''#12345'' = Inl InvalidHexColor"
  "parseHexColor ''#12345G'' = Inl InvalidHexColor"
  by (simp_all add: parseHexColor_def parseHexByte_def hexDigit_def)

text \<open>
  Claim C5. Whatever the four configured anchor colours and the marker opacity are, the
  palette built by \<open>BuildPalette\<close> holds at each of the codes 0, 157, 201 and 255
  exactly the colour parsed from the configuration for that anchor, channel by channel:
  at an anchor the interpolation factor is exactly 0 or 1, the sums and products of
  integers below 256 are exact in \<open>float64\<close>, both segments that share the codes 157
  and 201 write the same value there, and no later assignment changes these four
  entries.
\<close>

theorem BuildPalette_anchor_codes:
  "Colors (BuildPalette cfg markerOpacity) 0 = valuesOf (parseHexColor (Black cfg)) \<and>
   Colors (BuildPalette cfg markerOpacity) 157 = valuesOf (parseHexColor (DarkGray cfg)) \<and>
   Colors (BuildPalette cfg markerOpacity) 201 = valuesOf (parseHexColor (LightGray cfg)) \<and>
   Colors (BuildPalette cfg markerOpacity) 255 = valuesOf (parseHexColor (White cfg))"
  unfolding BuildPalette_def Let_def
  by (simp only: Palette.simps aliasColors_anchor interpolated_anchors simp_thms)

lemma note_marker_byte: "byte_of_f64 (f64_mul (f64_round (2 / 10)) 255) = 51"
  by code_simp

text \<open>
  Claim C10. For every configuration the palette of \<open>ConvertNoteToPDFVector\<close> gives the
  marker codes 0x66, 0x67 and 0x68 the alpha byte 51 (the opacity is the constant 0.2,
  and \<open>byte(0.2 * 255) = 51\<close>), and it does not depend on the \<open>Mark\<close> section of the
  configuration; the palette of \<open>ConvertMarkToPDFVector\<close> is built with the configured
  \<open>cfg.Mark.MarkerOpacity\<close>, which sets the alpha byte of the marker codes there.
\<close>

theorem note_marker_opacity_fixed:
  "Alphas (ConvertNoteToPDFVector_palette cfg) 0x66 = 51 \<and>
   Alphas (ConvertNoteToPDFVector_palette cfg) 0x67 = 51 \<and>
   Alphas (ConvertNoteToPDFVector_palette cfg) 0x68 = 51 \<and>
   ConvertNoteToPDFVector_palette (cfg\<lparr>Mark := mark\<rparr>) = ConvertNoteToPDFVector_palette cfg \<and>
   ConvertMarkToPDFVector_palette cfg =
     BuildPalette (MarkColorConfig (Mark cfg)) (MarkerOpacity (Mark cfg)) \<and>
   Alphas (ConvertMarkToPDFVector_palette cfg) 0x66 =
     (if byte_of_f64 (f64_mul (MarkerOpacity (Mark cfg)) 255) = 0 then 0x26
      else byte_of_f64 (f64_mul (MarkerOpacity (Mark cfg)) 255))"
proof (intro conjI)
  have a: "Alphas (ConvertNoteToPDFVector_palette cfg) = markerAlphas (f64_round (2 / 10))"
    unfolding ConvertNoteToPDFVector_palette_def BuildPalette_def Let_def
    by (simp only: Palette.simps)
  have ne: "(51 :: byte) \<noteq> 0" by simp
  show "Alphas (ConvertNoteToPDFVector_palette cfg) 0x66 = 51"
    by (simp only: a markerAlphas_marker note_marker_byte ne if_False)
  show "Alphas (ConvertNoteToPDFVector_palette cfg) 0x67 = 51"
    by (simp only: a markerAlphas_marker note_marker_byte ne if_False)
  show "Alphas (ConvertNoteToPDFVector_palette cfg) 0x68 = 51"
    by (simp only: a markerAlphas_marker note_marker_byte ne if_False)
  show "ConvertNoteToPDFVector_palette (cfg\<lparr>Mark := mark\<rparr>) = ConvertNoteToPDFVector_palette cfg"
  proof -
    have "Note (cfg\<lparr>Mark := mark\<rparr>) = Note cfg" by simp
    then show ?thesis by (simp only: ConvertNoteToPDFVector_palette_def)
  qed
  show "ConvertMarkToPDFVector_palette cfg =
     BuildPalette (MarkColorConfig (Mark cfg)) (MarkerOpacity (Mark cfg))"
    by (rule ConvertMarkToPDFVector_palette_def)
  have b: "Alphas (ConvertMarkToPDFVector_palette cfg) = markerAlphas (MarkerOpacity (Mark cfg))"
    unfolding ConvertMarkToPDFVector_palette_def BuildPalette_def Let_def
    by (simp only: Palette.simps)
  show "Alphas (ConvertMarkToPDFVector_palette cfg) 0x66 =
     (if byte_of_f64 (f64_mul (MarkerOpacity (Mark cfg)) 255) = 0 then 0x26
      else byte_of_f64 (f64_mul (MarkerOpacity (Mark cfg)) 255))"
    by (simp only: b markerAlphas_marker)
qed

section \<open>Properties of the objects of a page\<close>

lemma addGsEntry_inv: "gsInv st \<Longrightarrow> gsInv (addGsEntry st cl)"
  by (cases st) (auto simp: gsInv_def addGsEntry_def Let_def split: option.splits)

lemma foldl_addGsEntry_inv: "gsInv st \<Longrightarrow> gsInv (foldl addGsEntry st layers)"
  by (induction layers arbitrary: st) (simp_all add: addGsEntry_inv)

lemma gsEntries_distinct:
  "foldl addGsEntry ([], Map.empty) layers = (gsEntries, gsMap) \<Longrightarrow> distinct (map gs_alpha gsEntries)"
  using foldl_addGsEntry_inv [of "([], Map.empty)" layers] by (simp add: gsInv_def)

lemma assign_fold:
  assumes "distinct (map gs_alpha es)"
  shows "\<exists>m'. foldl (\<lambda>(gsObjIDs, numObjects) gs.
              (gsObjIDs(gs_alpha gs \<mapsto> objStart + numObjects), numObjects + 1)) (m0, n0) es
            = (m', n0 + int (length es)) \<and>
           (\<forall>j < length es. m' (gs_alpha (es ! j)) = Some (objStart + n0 + int j)) \<and>
           (\<forall>a. a \<notin> set (map gs_alpha es) \<longrightarrow> m' a = m0 a)"
  using assms
proof (induction es arbitrary: m0 n0)
  case Nil
  then show ?case by simp
next
  case (Cons e es)
  from Cons.prems have d: "distinct (map gs_alpha es)" and ne: "gs_alpha e \<notin> set (map gs_alpha es)"
    by simp_all
  from Cons.IH [OF d, of "m0(gs_alpha e \<mapsto> objStart + n0)" "n0 + 1"]
  obtain m' where f: "foldl (\<lambda>(gsObjIDs, numObjects) gs.
              (gsObjIDs(gs_alpha gs \<mapsto> objStart + numObjects), numObjects + 1))
              (m0(gs_alpha e \<mapsto> objStart + n0), n0 + 1) es = (m', n0 + 1 + int (length es))"
    and a: "\<forall>j < length es. m' (gs_alpha (es ! j)) = Some (objStart + (n0 + 1) + int j)"
    and b: "\<forall>a. a \<notin> set (map gs_alpha es) \<longrightarrow> m' a = (m0(gs_alpha e \<mapsto> objStart + n0)) a"
    by blast
  have 1: "foldl (\<lambda>(gsObjIDs, numObjects) gs.
              (gsObjIDs(gs_alpha gs \<mapsto> objStart + numObjects), numObjects + 1)) (m0, n0) (e # es)
            = (m', n0 + int (length (e # es)))"
    using f by (simp add: algebra_simps)
  have 2: "m' (gs_alpha ((e # es) ! j)) = Some (objStart + n0 + int j)" if "j < length (e # es)" for j
  proof (cases j)
    case 0
    then show ?thesis using b ne by simp
  next
    case (Suc j')
    then show ?thesis using a that by (simp add: algebra_simps)
  qed
  have 3: "m' a = m0 a" if "a \<notin> set (map gs_alpha (e # es))" for a
    using b that by auto
  from 1 2 3 show ?case by blast
qed

lemma assignGsObjIDs_ids:
  assumes "distinct (map gs_alpha es)" "assignGsObjIDs objStart es = (gsObjIDs, n)"
  shows "n = 2 + int (length es)"
    and "map (obj_id \<circ> gsObject gsObjIDs) es = map (\<lambda>j. objStart + 2 + int j) [0 ..< length es]"
proof -
  from assign_fold [OF assms(1), of objStart Map.empty 2] assms(2)
  have n: "n = 2 + int (length es)"
    and ids: "\<forall>j < length es. gsObjIDs (gs_alpha (es ! j)) = Some (objStart + 2 + int j)"
    by (auto simp: assignGsObjIDs_def)
  show "n = 2 + int (length es)" by (rule n)
  show "map (obj_id \<circ> gsObject gsObjIDs) es = map (\<lambda>j. objStart + 2 + int j) [0 ..< length es]"
    by (rule nth_equalityI) (simp_all add: gsObject_def Let_def lookupID_def ids)
qed

lemma consecutive_0 [simp]: "consecutive first 0 = []"
  by (simp add: consecutive_def)

lemma consecutive_Suc: "consecutive first (Suc n) = first # consecutive (first + 1) n"
proof -
  have "[0 ..< Suc n] = 0 # map Suc [0 ..< n]"
    by (simp add: upt_conv_Cons map_Suc_upt del: upt_Suc)
  then show ?thesis by (simp add: consecutive_def comp_def algebra_simps)
qed

lemma consecutive_append:
  "consecutive first (m + n) = consecutive first m @ consecutive (first + int m) n"
proof (induction m arbitrary: first)
  case 0
  then show ?case by simp
next
  case (Suc m)
  have "consecutive first (Suc m + n) = first # consecutive (first + 1) (m + n)"
    by (simp add: consecutive_Suc)
  also have "\<dots> = first # consecutive (first + 1) m @ consecutive (first + 1 + int m) n"
    by (simp only: Suc.IH)
  finally show ?case by (simp add: consecutive_Suc algebra_simps)
qed

lemma length_consecutive [simp]: "length (consecutive first n) = n"
  by (simp add: consecutive_def)

lemma consecutive_1: "consecutive first 1 = [first]"
  by (simp add: consecutive_def)

lemma consecutive_2: "consecutive first 2 = [first, first + 1]"
  by (simp add: consecutive_def numeral_2_eq_2)

lemma consecutive_page:
  "consecutive first (2 + k) = [first, first + 1] @ consecutive (first + 2) k"
  "consecutive first (2 + k + 1) = [first, first + 1] @ consecutive (first + 2) k @ [first + 2 + int k]"
proof -
  show a: "consecutive first (2 + k) = [first, first + 1] @ consecutive (first + 2) k"
    using consecutive_append [of first 2 k] by (simp only: consecutive_2) simp
  have "consecutive first (2 + (k + 1)) = [first, first + 1] @ consecutive (first + 2) (k + 1)"
    using consecutive_append [of first 2 "k + 1"] by (simp only: consecutive_2) simp
  also have "consecutive (first + 2) (k + 1) = consecutive (first + 2) k @ [first + 2 + int k]"
    using consecutive_append [of "first + 2" k 1] by (simp only: consecutive_1)
  finally show "consecutive first (2 + k + 1) =
      [first, first + 1] @ consecutive (first + 2) k @ [first + 2 + int k]"
    by (simp only: add.assoc)
qed

lemma buildVectorPageChunk_ids:
  assumes "buildVectorPageChunk compressZlib tree layers bg width height wpt hpt links objStart ocr
             = (chunk, numObjects)"
  shows "2 \<le> numObjects \<and> map obj_id (objects chunk) = consecutive objStart (nat numObjects)"
proof -
  define synthetic where "synthetic = (bg = None \<and> ocr)"
  define bgRGB where "bgRGB = (if synthetic then Some [CHR 0xFF, CHR 0xFF, CHR 0xFF] else bg)"
  obtain gsEntries gsMap where gs: "foldl addGsEntry ([], Map.empty) layers = (gsEntries, gsMap)"
    by (cases "foldl addGsEntry ([], Map.empty) layers") auto
  obtain gsObjIDs n1 where as: "assignGsObjIDs objStart gsEntries = (gsObjIDs, n1)"
    by (cases "assignGsObjIDs objStart gsEntries") auto
  have d: "distinct (map gs_alpha gsEntries)" using gs by (rule gsEntries_distinct)
  note ids = assignGsObjIDs_ids [OF d as]
  define k where "k = length gsEntries"
  have gsids: "map obj_id (map (gsObject gsObjIDs) gsEntries) = consecutive (objStart + 2) k"
    using ids(2) by (simp add: consecutive_def k_def algebra_simps)
  show ?thesis
  proof (cases bgRGB)
    case None
    with assms gs as have num: "numObjects = n1"
      and objs: "objects chunk = [\<lparr>obj_id = objStart, obj_data = pageObjData objStart wpt hpt (objStart + 1)
                     (resourcesOf False 0 gsEntries gsObjIDs) (annotsOf links)\<rparr>,
                   \<lparr>obj_id = objStart + 1, obj_data = contentsObjData (objStart + 1)
                     (pageContent tree gsMap layers False width height wpt hpt)\<rparr>]
                  @ map (gsObject gsObjIDs) gsEntries"
      by (auto simp: buildVectorPageChunk_def Let_def bgRGB_def synthetic_def split: if_splits)
    have "nat numObjects = 2 + k"
      using num ids(1) by (simp add: k_def)
    moreover have "map obj_id (objects chunk) = [objStart, objStart + 1] @ consecutive (objStart + 2) k"
      using objs gsids by simp
    ultimately show ?thesis
      using num ids(1) by (simp only: consecutive_page) simp
  next
    case (Some raw)
    with assms gs as have num: "numObjects = n1 + 1"
      and objs: "objects chunk = [\<lparr>obj_id = objStart, obj_data = pageObjData objStart wpt hpt (objStart + 1)
                     (resourcesOf True (objStart + n1) gsEntries gsObjIDs) (annotsOf links)\<rparr>,
                   \<lparr>obj_id = objStart + 1, obj_data = contentsObjData (objStart + 1)
                     (pageContent tree gsMap layers True width height wpt hpt)\<rparr>]
                  @ map (gsObject gsObjIDs) gsEntries
                  @ [imageObject compressZlib (objStart + n1) (if synthetic then 1 else width)
                       (if synthetic then 1 else height) raw]"
      by (auto simp: buildVectorPageChunk_def Let_def bgRGB_def synthetic_def split: if_splits)
    have "nat numObjects = 2 + k + 1"
      using num ids(1) by (simp add: k_def)
    moreover have "map obj_id (objects chunk) =
        [objStart, objStart + 1] @ consecutive (objStart + 2) k @ [objStart + 2 + int k]"
      using objs gsids ids(1) by (simp add: k_def imageObject_def Let_def)
    ultimately show ?thesis
      using num ids(1) by (simp only: consecutive_page) simp
  qed
qed

section \<open>Properties of the assembly and of the cross-reference table\<close>

lemma allocateChunks_ids:
  assumes "allocateChunks compressZlib tree width height wpt hpt pageLinks rs i next = (ids, chunks, fin)"
  shows "next \<le> fin \<and> length ids = length rs \<and>
         concat (map (\<lambda>c. map obj_id (objects c)) chunks) = consecutive next (nat (fin - next)) \<and>
         (\<forall>c \<in> set chunks. objects c \<noteq> [])"
  using assms
proof (induction rs arbitrary: i "next" ids chunks fin)
  case Nil
  then show ?case by simp
next
  case (Cons r rs)
  obtain chunk numObjs where b: "buildVectorPageChunk compressZlib tree (colorLayers r) (bgRGB r)
      width height wpt hpt (pageLinks i) next True = (chunk, numObjs)"
    by (cases "buildVectorPageChunk compressZlib tree (colorLayers r) (bgRGB r)
      width height wpt hpt (pageLinks i) next True") auto
  obtain ids' chunks' fin' where a: "allocateChunks compressZlib tree width height wpt hpt pageLinks rs
      (i + 1) (next + numObjs) = (ids', chunks', fin')"
    by (cases "allocateChunks compressZlib tree width height wpt hpt pageLinks rs
      (i + 1) (next + numObjs)") auto
  from Cons.prems b a have eq: "ids = next # ids'" "chunks = chunk # chunks'" "fin = fin'"
    by simp_all
  from buildVectorPageChunk_ids [OF b]
  have n2: "2 \<le> numObjs" and cid: "map obj_id (objects chunk) = consecutive next (nat numObjs)"
    by simp_all
  from Cons.IH [OF a]
  have le: "next + numObjs \<le> fin'" and len: "length ids' = length rs"
    and rest: "concat (map (\<lambda>c. map obj_id (objects c)) chunks') =
                 consecutive (next + numObjs) (nat (fin' - (next + numObjs)))"
    and ne: "\<forall>c \<in> set chunks'. objects c \<noteq> []"
    by simp_all
  have "nat (fin' - next) = nat numObjs + nat (fin' - (next + numObjs))"
    using n2 le by simp
  then have "consecutive next (nat (fin' - next)) =
      consecutive next (nat numObjs) @ consecutive (next + numObjs) (nat (fin' - (next + numObjs)))"
    using consecutive_append [of "next" "nat numObjs" "nat (fin' - (next + numObjs))"] n2 by simp
  moreover have "objects chunk \<noteq> []"
    using cid n2 by (cases "objects chunk") (auto simp: consecutive_def)
  ultimately show ?case
    using eq n2 le len rest ne cid by simp
qed

lemma resolveChunks_ok:
  assumes "\<forall>c \<in> set chunks. objects c \<noteq> []"
  shows "\<exists>chunks'. resolveChunks pageObjIDs chunks = Inr chunks' \<and>
           map (\<lambda>c. map obj_id (objects c)) chunks' = map (\<lambda>c. map obj_id (objects c)) chunks"
  using assms
proof (induction chunks)
  case Nil
  then show ?case by simp
next
  case (Cons c chunks)
  then obtain chunks' where r: "resolveChunks pageObjIDs chunks = Inr chunks'"
    and m: "map (\<lambda>c. map obj_id (objects c)) chunks' = map (\<lambda>c. map obj_id (objects c)) chunks"
    by auto
  from Cons.prems obtain obj objs where o: "objects c = obj # objs"
    by (cases "objects c") auto
  show ?case
    using r m o by (simp add: resolveChunk_def andThen_def)
qed

lemma writeObjects_append:
  "writeObjects pw xs (as @ bs) =
     andThen (writeObjects pw xs as) (\<lambda>(pw', xs'). writeObjects pw' xs' bs)"
  by (induction as arbitrary: pw xs) (auto simp: andThen_def split: sum.splits)

lemma writeChunks_concat:
  "writeChunks pw xs chunks = writeObjects pw xs (concat (map objects chunks))"
proof (induction chunks arbitrary: pw xs)
  case Nil
  then show ?case by simp
next
  case (Cons c chunks)
  show ?case
    by (simp add: writeObjects_append Cons.IH andThen_def split: sum.splits prod.splits)
qed

lemma writeObjects_offsets:
  assumes "pw_offset pw = length (pw_out pw)"
    and "map obj_id objs = consecutive (int k + 1) (length objs)"
    and "k + length objs \<le> length xs"
  shows "\<exists>xs'. writeObjects pw xs objs = Inr (written pw (concat (map obj_data objs)), xs') \<and>
           length xs' = length xs \<and>
           (\<forall>j < length objs.
              xs' ! (k + j) = length (pw_out pw) + length (concat (map obj_data (take j objs)))) \<and>
           (\<forall>i < k. xs' ! i = xs ! i)"
  using assms
proof (induction objs arbitrary: pw xs k)
  case Nil
  then show ?case by (cases pw) (simp add: written_def)
next
  case (Cons obj objs)
  from Cons.prems(2) have id: "obj_id obj = int k + 1"
    and ids: "map obj_id objs = consecutive (int (Suc k) + 1) (length objs)"
    by (simp_all add: consecutive_Suc)
  from Cons.prems(3) have k: "k < length xs" and k': "Suc k + length objs \<le> length xs"
    by simp_all
  define xs1 where "xs1 = xs[k := pw_offset pw]"
  define pw1 where "pw1 = pw_write pw (obj_data obj)"
  have st: "store xs (obj_id obj - 1) (pw_offset pw) = Inr xs1"
    using id k by (simp add: store_def xs1_def)
  have inv1: "pw_offset pw1 = length (pw_out pw1)"
    using Cons.prems(1) by (simp add: pw1_def pw_write_def)
  have len1: "Suc k + length objs \<le> length xs1" using k' by (simp add: xs1_def)
  from Cons.IH [OF inv1 ids len1]
  obtain xs' where w: "writeObjects pw1 xs1 objs = Inr (written pw1 (concat (map obj_data objs)), xs')"
    and l: "length xs' = length xs1"
    and offs: "\<forall>j < length objs.
              xs' ! (Suc k + j) = length (pw_out pw1) + length (concat (map obj_data (take j objs)))"
    and keep: "\<forall>i < Suc k. xs' ! i = xs1 ! i"
    by blast
  have wr: "written pw1 (concat (map obj_data objs)) = written pw (concat (map obj_data (obj # objs)))"
    by (simp add: written_def pw1_def pw_write_def)
  have 1: "writeObjects pw xs (obj # objs) = Inr (written pw (concat (map obj_data (obj # objs))), xs')"
    using st w wr by (simp add: andThen_def pw1_def)
  have 2: "length xs' = length xs" using l by (simp add: xs1_def)
  have 3: "xs' ! (k + j) = length (pw_out pw) + length (concat (map obj_data (take j (obj # objs))))"
    if "j < length (obj # objs)" for j
  proof (cases j)
    case 0
    then show ?thesis using keep k Cons.prems(1) by (simp add: xs1_def)
  next
    case (Suc j')
    then show ?thesis using offs that by (simp add: pw1_def pw_write_def)
  qed
  have 4: "xs' ! i = xs ! i" if "i < k" for i
    using keep that by (simp add: xs1_def)
  from 1 2 3 4 show ?case by blast
qed

lemma writeBody_objects:
  assumes "0 \<le> totalObjects"
  shows "writeBody pageObjIDs chunks totalObjects =
           writeObjects (writeHeader \<lparr>pw_out = [], pw_offset = 0\<rparr>) (replicate (nat totalObjects) 0)
             (documentObjects pageObjIDs chunks)"
  using assms
  by (simp add: writeBody_def documentObjects_def writeChunks_concat Let_def
      pw_write_def writeStr_def andThen_def split: sum.splits)

lemma foldl_writeXrefEntry:
  "pw_out (foldl writeXrefEntry pw xs) =
     pw_out pw @ concat (map (\<lambda>off. fmt_010d off @ '' 00000 n \<newline>'') xs)"
  by (induction xs arbitrary: pw) (simp_all add: writeXrefEntry_def)

lemma writeXrefTrailer_out:
  "pw_out (writeXrefTrailer pw xs n) = pw_out pw @ xrefSection xs n (pw_offset pw)"
  by (simp add: writeXrefTrailer_def Let_def writeStr_def foldl_writeXrefEntry xrefSection_def)

lemma consecutive_upto: "consecutive 1 m = [1..int m]"
proof (induction m)
  case 0
  then show ?case by simp
next
  case (Suc m)
  have "consecutive 1 (m + 1) = consecutive 1 m @ [1 + int m]"
    using consecutive_append [of 1 m 1] by (simp only: consecutive_1)
  moreover have "[1..int (Suc m)] = [1..int m] @ [1 + int m]"
    using upto_rec2 [of 1 "int (Suc m)"] by (simp add: algebra_simps)
  ultimately show ?case using Suc.IH by simp
qed

lemma objectAt_concat:
  assumes "j < length objs"
  shows "objectAt (pre @ concat (map obj_data objs) @ post)
           (length pre + length (concat (map obj_data (take j objs)))) (objs ! j)"
proof -
  have "objs = take j objs @ objs ! j # drop (Suc j) objs"
    using assms by (rule id_take_nth_drop)
  then have "concat (map obj_data objs) =
      concat (map obj_data (take j objs)) @ obj_data (objs ! j) @ concat (map obj_data (drop (Suc j) objs))"
    by (metis concat.simps(2) concat_append list.simps(9) map_append)
  then have "pre @ concat (map obj_data objs) @ post =
      (pre @ concat (map obj_data (take j objs))) @ obj_data (objs ! j)
        @ (concat (map obj_data (drop (Suc j) objs)) @ post)"
    by simp
  then show ?thesis
    unfolding objectAt_def by (simp only: drop_append length_append) simp
qed

lemma assembleParts_layout:
  assumes al: "allocateChunks compressZlib tree width height
                 (f64_mul (f64_div (f64_of_int width) ppi) 72)
                 (f64_mul (f64_div (f64_of_int height) ppi) 72)
                 (foldl (addPageLink (int (length results)) (f64_div 72 ppi)
                          (f64_mul (f64_div (f64_of_int height) ppi) 72)) (\<lambda>i. []) links)
                 results 0 3 = (ids, chunks0, fin)"
  shows "\<exists>chunks pw xs.
     resolveChunks ids chunks0 = Inr chunks \<and>
     assembleParts compressZlib tree width height ppi links results =
       Inr (ids, chunks, fin - 1, pw, xs) \<and>
     ConvertNoteToPDFVector_assemble compressZlib tree width height ppi links results =
       Inr (pw_out pw @ xrefSection xs (fin - 1) (length (pw_out pw))) \<and>
     map obj_id (documentObjects ids chunks) = [1..fin - 1] \<and>
     length xs = nat (fin - 1) \<and>
     (\<forall>obj \<in> set (documentObjects ids chunks).
        objectAt (pw_out pw @ xrefSection xs (fin - 1) (length (pw_out pw)))
          (xs ! nat (obj_id obj - 1)) obj)"
proof -
  from allocateChunks_ids [OF al]
  have fin: "3 \<le> fin"
    and cids: "concat (map (\<lambda>c. map obj_id (objects c)) chunks0) = consecutive 3 (nat (fin - 3))"
    and ne: "\<forall>c \<in> set chunks0. objects c \<noteq> []"
    by simp_all
  from resolveChunks_ok [OF ne, of ids]
  obtain chunks where rs: "resolveChunks ids chunks0 = Inr chunks"
    and same: "map (\<lambda>c. map obj_id (objects c)) chunks = map (\<lambda>c. map obj_id (objects c)) chunks0"
    by blast
  define total where "total = fin - 1"
  define D where "D = documentObjects ids chunks"
  define k where "k = nat (fin - 3)"
  have tk: "nat total = 2 + k" using fin by (simp add: total_def k_def)
  have "map obj_id (concat (map objects chunks)) = concat (map (\<lambda>c. map obj_id (objects c)) chunks)"
    by (simp add: map_concat comp_def)
  then have "map obj_id D = [1, 1 + 1] @ consecutive (1 + 2) k"
    using cids same by (simp add: D_def documentObjects_def k_def)
  then have Dids: "map obj_id D = consecutive 1 (nat total)"
    by (simp only: tk consecutive_page(1))
  have lenD: "length D = nat total"
    using arg_cong [OF Dids, of length] by simp
  define hdr where "hdr = writeHeader \<lparr>pw_out = [], pw_offset = 0\<rparr>"
  have hinv: "pw_offset hdr = length (pw_out hdr)"
    by (simp add: hdr_def writeHeader_def pw_write_def)
  have Dids': "map obj_id D = consecutive (int 0 + 1) (length D)"
    using Dids lenD by simp
  have room: "0 + length D \<le> length (replicate (nat total) (0::nat))"
    using lenD by simp
  from writeObjects_offsets [OF hinv Dids' room]
  obtain xs where w: "writeObjects hdr (replicate (nat total) 0) D =
        Inr (written hdr (concat (map obj_data D)), xs)"
    and lxs: "length xs = nat total"
    and offs: "\<forall>j < length D. xs ! j = length (pw_out hdr) + length (concat (map obj_data (take j D)))"
    by auto
  define pw where "pw = written hdr (concat (map obj_data D))"
  have pwout: "pw_out pw = pw_out hdr @ concat (map obj_data D)"
    and pwinv: "pw_offset pw = length (pw_out pw)"
    by (simp_all add: pw_def written_def)
  have t0: "0 \<le> total" using fin by (simp add: total_def)
  have wb: "writeBody ids chunks total = Inr (pw, xs)"
    using writeBody_objects [OF t0, of ids chunks] w by (simp add: hdr_def D_def pw_def)
  have parts: "assembleParts compressZlib tree width height ppi links results =
       Inr (ids, chunks, total, pw, xs)"
    using al rs wb
    by (simp add: assembleParts_def Let_def andThen_def total_def)
  have asm: "ConvertNoteToPDFVector_assemble compressZlib tree width height ppi links results =
       Inr (pw_out pw @ xrefSection xs total (length (pw_out pw)))"
    using parts pwinv
    by (simp add: ConvertNoteToPDFVector_assemble_def andThen_def writeXrefTrailer_out)
  have upto: "map obj_id D = [1..total]"
    using Dids t0 consecutive_upto [of "nat total"] by simp
  have at: "objectAt (pw_out pw @ xrefSection xs total (length (pw_out pw)))
          (xs ! nat (obj_id obj - 1)) obj" if "obj \<in> set D" for obj
  proof -
    from that obtain j where j: "j < length D" and dj: "D ! j = obj"
      by (auto simp: in_set_conv_nth)
    have "obj_id obj = map obj_id D ! j" using j dj by simp
    also have "\<dots> = 1 + int j" using j lenD by (simp add: Dids consecutive_def)
    finally have idj: "nat (obj_id obj - 1) = j" by simp
    have "objectAt (pw_out hdr @ concat (map obj_data D) @ xrefSection xs total (length (pw_out pw)))
            (length (pw_out hdr) + length (concat (map obj_data (take j D)))) (D ! j)"
      using j by (rule objectAt_concat)
    then show ?thesis
      using offs j dj idj by (simp add: pwout)
  qed
  show ?thesis
    using rs parts asm upto lxs at unfolding D_def total_def by blast
qed

text \<open>
  Claim C4. For every list of rendered pages and of links, whatever the page size and
  whatever the compressor and the path writer produce, the assembly returns without a
  panic, and the file it writes is the body followed by the cross-reference section, where
  \<^item> the objects of the document (the catalog, the page tree and the objects of the
    chunks) carry the ids 1 to \<open>totalObjects\<close>, in this order;
  \<^item> the table has one offset for each of these ids, and the bytes of the object with id
    \<open>n\<close> stand in the file from the offset at index \<open>n - 1\<close> of the table on;
  \<^item> the section starts with the subsection header \<open>0 totalObjects+1\<close> and the fixed
    entry of object 0, lists the offsets in the order of the ids, names
    \<open>/Size totalObjects+1\<close> and \<open>/Root 1 0 R\<close> in the trailer, and gives after
    \<open>startxref\<close> the length of the body, which is the offset of the section itself.
\<close>

theorem xref_records_object_offsets:
  "\<exists>pageObjIDs chunks totalObjects pw xrefOffsets.
     assembleParts compressZlib tree width height ppi links results =
       Inr (pageObjIDs, chunks, totalObjects, pw, xrefOffsets) \<and>
     ConvertNoteToPDFVector_assemble compressZlib tree width height ppi links results =
       Inr (pw_out pw @ xrefSection xrefOffsets totalObjects (length (pw_out pw))) \<and>
     map obj_id (documentObjects pageObjIDs chunks) = [1..totalObjects] \<and>
     length xrefOffsets = nat totalObjects \<and>
     (\<forall>obj \<in> set (documentObjects pageObjIDs chunks).
        objectAt (pw_out pw @ xrefSection xrefOffsets totalObjects (length (pw_out pw)))
          (xrefOffsets ! nat (obj_id obj - 1)) obj)"
proof -
  obtain ids chunks0 fin where al:
    "allocateChunks compressZlib tree width height
       (f64_mul (f64_div (f64_of_int width) ppi) 72)
       (f64_mul (f64_div (f64_of_int height) ppi) 72)
       (foldl (addPageLink (int (length results)) (f64_div 72 ppi)
                (f64_mul (f64_div (f64_of_int height) ppi) 72)) (\<lambda>i. []) links)
       results 0 3 = (ids, chunks0, fin)"
    using prod_cases3 by blast
  from assembleParts_layout [OF al] show ?thesis by blast
qed

text \<open>The theorem at a document of one blank page, for its catalog.\<close>

theorem xref_records_object_offsets_witness:
  "\<exists>pageObjIDs chunks totalObjects pw xrefOffsets.
     assembleParts Some noPaths 1920 2560 300 [] (blankPages 1) =
       Inr (pageObjIDs, chunks, totalObjects, pw, xrefOffsets) \<and>
     length xrefOffsets = nat totalObjects \<and>
     objectAt (pw_out pw @ xrefSection xrefOffsets totalObjects (length (pw_out pw)))
       (xrefOffsets ! nat (1 - 1)) \<lparr>obj_id = 1, obj_data = catalogData\<rparr>"
proof -
  from xref_records_object_offsets [of Some noPaths 1920 2560 300 "[]" "blankPages 1"]
  obtain pageObjIDs chunks totalObjects pw xrefOffsets where
    parts: "assembleParts Some noPaths 1920 2560 300 [] (blankPages 1) =
       Inr (pageObjIDs, chunks, totalObjects, pw, xrefOffsets)"
    and len: "length xrefOffsets = nat totalObjects"
    and at: "\<forall>obj \<in> set (documentObjects pageObjIDs chunks).
        objectAt (pw_out pw @ xrefSection xrefOffsets totalObjects (length (pw_out pw)))
          (xrefOffsets ! nat (obj_id obj - 1)) obj"
    by blast
  have "\<lparr>obj_id = 1, obj_data = catalogData\<rparr> \<in> set (documentObjects pageObjIDs chunks)"
    by (simp add: documentObjects_def)
  with at have "objectAt (pw_out pw @ xrefSection xrefOffsets totalObjects (length (pw_out pw)))
       (xrefOffsets ! nat (obj_id \<lparr>obj_id = 1, obj_data = catalogData\<rparr> - 1))
       \<lparr>obj_id = 1, obj_data = catalogData\<rparr>"
    by (rule bspec)
  then have "objectAt (pw_out pw @ xrefSection xrefOffsets totalObjects (length (pw_out pw)))
       (xrefOffsets ! nat (1 - 1)) \<lparr>obj_id = 1, obj_data = catalogData\<rparr>"
    by simp
  with parts len show ?thesis by blast
qed

section \<open>The placeholders of an example document\<close>

lemma digits_lt10: "n < 10 \<Longrightarrow> digits n = [digitChar n]"
  by (simp add: digits.simps)

lemma digits_ge10: "10 \<le> n \<Longrightarrow> digits n = digits (n div 10) @ [digitChar (n mod 10)]"
  by (subst digits.simps) simp

lemma replicate_pos: "0 < n \<Longrightarrow> replicate n x = x # replicate (n - 1) x"
  by (cases n) simp_all

lemma ReplaceAll_match:
  "old \<noteq> [] \<Longrightarrow> take (length old) (c # cs) = old \<Longrightarrow>
     ReplaceAll (c # cs) old new = new @ ReplaceAll (drop (length old) (c # cs)) old new"
  by (simp add: ReplaceAll.simps)

lemma ReplaceAll_skip:
  "take (length old) (c # cs) \<noteq> old \<Longrightarrow> ReplaceAll (c # cs) old new = c # ReplaceAll cs old new"
  by (simp add: ReplaceAll.simps)

lemmas eval_fmt = digits_lt10 digits_ge10 digitChar_def fmt_d_def fmt_010d_def
  ReplaceAll_match ReplaceAll_skip ReplaceAll.simps(1)

lemma blank_page_chunk:
  "buildVectorPageChunk compressZlib tree [] None width height wpt hpt links objStart True =
     (\<lparr>objects =
         [\<lparr>obj_id = objStart,
            obj_data = pageObjData objStart wpt hpt (objStart + 1)
                         (resourcesOf True (objStart + 2) [] Map.empty) (annotsOf links)\<rparr>,
          \<lparr>obj_id = objStart + 1,
            obj_data = contentsObjData (objStart + 1)
                         (pageContent tree Map.empty [] True width height wpt hpt)\<rparr>,
          imageObject compressZlib (objStart + 2) 1 1 [CHR 0xFF, CHR 0xFF, CHR 0xFF]]\<rparr>,
      3)"
  by (simp add: buildVectorPageChunk_def assignGsObjIDs_def Let_def)

lemma example_points:
  "f64_mul (f64_div (f64_of_int 1920) 300) 72 = 8106479329266893 / 17592186044416"
  "f64_mul (f64_div (f64_of_int 2560) 300) 72 = 5404319552844595 / 8796093022208"
  by code_simp+

lemma example_pageLinks:
  "foldl (addPageLink 13 (f64_div 72 300) (5404319552844595 / 8796093022208)) (\<lambda>i. [])
     linksToPages1And12 0 =
   [\<lparr>Rect = (24, 4876553971512115 / 8796093022208, 96, 4982107087778611 / 8796093022208),
      DestPage = 1\<rparr>,
    \<lparr>Rect = (24, 4454341506446131 / 8796093022208, 96, 4559894622712627 / 8796093022208),
      DestPage = 12\<rparr>]"
  by code_simp

lemma blankPages_13:
  "blankPages 13 = [b, b, b, b, b, b, b, b, b, b, b, b, b]" if "b = \<lparr>colorLayers = [], bgRGB = None\<rparr>"
  using that by (simp add: blankPages_def eval_nat_numeral)

lemma example_pageObjIDs:
  "fst (allocateChunks compressZlib tree width height wpt hpt pageLinks (blankPages 13) 0 3) =
     [3, 6, 9, 12, 15, 18, 21, 24, 27, 30, 33, 36, 39]"
  "fst (snd (allocateChunks compressZlib tree width height wpt hpt pageLinks (blankPages 13) 0 3)) ! 0 =
     fst (buildVectorPageChunk compressZlib tree [] None width height wpt hpt (pageLinks 0) 3 True)"
  "snd (snd (allocateChunks compressZlib tree width height wpt hpt pageLinks (blankPages 13) 0 3)) = 42"
  by (simp_all add: blankPages_13 [OF refl] blank_page_chunk)

lemma example_rounded:
  "round_half_even (\<bar>8106479329266893 / 17592186044416\<bar> * 10 ^ 2) = 46080"
  "round_half_even (\<bar>5404319552844595 / 8796093022208\<bar> * 10 ^ 2) = 61440"
  "round_half_even (\<bar>24\<bar> * 10 ^ 2) = 2400"
  "round_half_even (\<bar>96\<bar> * 10 ^ 2) = 9600"
  "round_half_even (\<bar>4876553971512115 / 8796093022208\<bar> * 10 ^ 2) = 55440"
  "round_half_even (\<bar>4982107087778611 / 8796093022208\<bar> * 10 ^ 2) = 56640"
  "round_half_even (\<bar>4454341506446131 / 8796093022208\<bar> * 10 ^ 2) = 50640"
  "round_half_even (\<bar>4559894622712627 / 8796093022208\<bar> * 10 ^ 2) = 51840"
  by code_simp+

lemma example_formatted:
  "fmt_f 2 (8106479329266893 / 17592186044416) = ''460.80''"
  "fmt_f 2 (5404319552844595 / 8796093022208) = ''614.40''"
  "fmt_f 2 24 = ''24.00''"
  "fmt_f 2 96 = ''96.00''"
  "fmt_f 2 (4876553971512115 / 8796093022208) = ''554.40''"
  "fmt_f 2 (4982107087778611 / 8796093022208) = ''566.40''"
  "fmt_f 2 (4454341506446131 / 8796093022208) = ''506.40''"
  "fmt_f 2 (4559894622712627 / 8796093022208) = ''518.40''"
  unfolding fmt_f_def example_rounded
  by (simp_all add: eval_fmt replicate_pos)

lemma example_page_object:
  "pageObjData 3 (8106479329266893 / 17592186044416) (5404319552844595 / 8796093022208) 4
     (resourcesOf True 5 [] Map.empty)
     (annotsOf
       [\<lparr>Rect = (24, 4876553971512115 / 8796093022208, 96, 4982107087778611 / 8796093022208),
          DestPage = 1\<rparr>,
        \<lparr>Rect = (24, 4454341506446131 / 8796093022208, 96, 4559894622712627 / 8796093022208),
          DestPage = 12\<rparr>]) =
   ''3 0 obj\<newline><< /Type /Page\<newline>   /Parent 2 0 R\<newline>   /MediaBox [0 0 460.80 614.40]\<newline>   /Contents 4 0 R\<newline>   /Resources << /XObject << /Im1 5 0 R >> >>\<newline>   /Annots [\<newline>     << /Type /Annot /Subtype /Link /Rect [24.00 554.40 96.00 566.40] /Border [0 0 0] /A << /S /GoTo /D [PAGEOBJ_1 /Fit] >> >>\<newline>     << /Type /Annot /Subtype /Link /Rect [24.00 506.40 96.00 518.40] /Border [0 0 0] /A << /S /GoTo /D [PAGEOBJ_12 /Fit] >> >>\<newline>   ]\<newline>>>\<newline>endobj\<newline>''"
  unfolding pageObjData_def resourcesOf_def annotsOf_def linkAnnot_def example_formatted
  by (simp add: eval_fmt example_formatted)

lemma example_resolution:
  "resolvePlaceholders [3, 6, 9, 12, 15, 18, 21, 24, 27, 30, 33, 36, 39]
     ''3 0 obj\<newline><< /Type /Page\<newline>   /Parent 2 0 R\<newline>   /MediaBox [0 0 460.80 614.40]\<newline>   /Contents 4 0 R\<newline>   /Resources << /XObject << /Im1 5 0 R >> >>\<newline>   /Annots [\<newline>     << /Type /Annot /Subtype /Link /Rect [24.00 554.40 96.00 566.40] /Border [0 0 0] /A << /S /GoTo /D [PAGEOBJ_1 /Fit] >> >>\<newline>     << /Type /Annot /Subtype /Link /Rect [24.00 506.40 96.00 518.40] /Border [0 0 0] /A << /S /GoTo /D [PAGEOBJ_12 /Fit] >> >>\<newline>   ]\<newline>>>\<newline>endobj\<newline>'' =
   ''3 0 obj\<newline><< /Type /Page\<newline>   /Parent 2 0 R\<newline>   /MediaBox [0 0 460.80 614.40]\<newline>   /Contents 4 0 R\<newline>   /Resources << /XObject << /Im1 5 0 R >> >>\<newline>   /Annots [\<newline>     << /Type /Annot /Subtype /Link /Rect [24.00 554.40 96.00 566.40] /Border [0 0 0] /A << /S /GoTo /D [6 0 R /Fit] >> >>\<newline>     << /Type /Annot /Subtype /Link /Rect [24.00 506.40 96.00 518.40] /Border [0 0 0] /A << /S /GoTo /D [6 0 R2 /Fit] >> >>\<newline>   ]\<newline>>>\<newline>endobj\<newline>''"
  by code_simp

lemma resolveChunks_hd:
  "resolveChunks ids (c # cs) = Inr chunks \<Longrightarrow> objects c = obj # objs \<Longrightarrow>
     obj_data (hd (objects (hd chunks))) = resolvePlaceholders ids (obj_data obj)"
  by (auto simp: resolveChunk_def andThen_def split: sum.splits)

lemma example_allocation:
  "\<exists>objs rest.
     allocateChunks compressZlib tree width height wpt hpt pageLinks (blankPages 13) 0 3 =
       ([3, 6, 9, 12, 15, 18, 21, 24, 27, 30, 33, 36, 39],
        \<lparr>objects = \<lparr>obj_id = 3,
                     obj_data = pageObjData 3 wpt hpt 4 (resourcesOf True 5 [] Map.empty)
                                  (annotsOf (pageLinks 0))\<rparr> # objs\<rparr> # rest,
        42)"
  by (simp add: blankPages_13 [OF refl] blank_page_chunk)

text \<open>
  Claim C1 does not hold of the code. The document has thirteen blank pages; its first page
  links to the pages with index 1 and index 12, whose page objects are 6 and 39. The
  second pass replaces \<open>PAGEOBJ_1\<close> by \<open>6 0 R\<close> before it comes to \<open>PAGEOBJ_12\<close>, and
  \<open>bytes.ReplaceAll\<close> replaces it inside \<open>PAGEOBJ_12\<close> too: the link to page 12 reads
  \<open>[6 0 R2 /Fit]\<close> in the page object written to the file, where the claim asks for
  \<open>[39 0 R /Fit]\<close>.
\<close>

theorem placeholder_prefix_corrupts_link:
  "\<exists>chunks totalObjects pw xrefOffsets.
     assembleParts Some noPaths 1920 2560 300 linksToPages1And12 (blankPages 13) =
       Inr ([3, 6, 9, 12, 15, 18, 21, 24, 27, 30, 33, 36, 39], chunks, totalObjects, pw, xrefOffsets) \<and>
     obj_data (hd (objects (hd chunks))) =
       ''3 0 obj\<newline><< /Type /Page\<newline>   /Parent 2 0 R\<newline>   /MediaBox [0 0 460.80 614.40]\<newline>   /Contents 4 0 R\<newline>   /Resources << /XObject << /Im1 5 0 R >> >>\<newline>   /Annots [\<newline>     << /Type /Annot /Subtype /Link /Rect [24.00 554.40 96.00 566.40] /Border [0 0 0] /A << /S /GoTo /D [6 0 R /Fit] >> >>\<newline>     << /Type /Annot /Subtype /Link /Rect [24.00 506.40 96.00 518.40] /Border [0 0 0] /A << /S /GoTo /D [6 0 R2 /Fit] >> >>\<newline>   ]\<newline>>>\<newline>endobj\<newline>''"
proof -
  let ?ids = "[3, 6, 9, 12, 15, 18, 21, 24, 27, 30, 33, 36, 39] :: int list"
  let ?wpt = "f64_mul (f64_div (f64_of_int 1920) 300) 72"
  let ?hpt = "f64_mul (f64_div (f64_of_int 2560) 300) 72"
  let ?links = "foldl (addPageLink (int (length (blankPages 13))) (f64_div 72 300) ?hpt) (\<lambda>i. [])
                  linksToPages1And12"
  have n: "int (length (blankPages 13)) = 13" by (simp add: blankPages_def)
  have l0: "foldl (addPageLink (int (length (blankPages 13))) (f64_div 72 300)
               (5404319552844595 / 8796093022208)) (\<lambda>i. []) linksToPages1And12 0 =
     [\<lparr>Rect = (24, 4876553971512115 / 8796093022208, 96, 4982107087778611 / 8796093022208),
        DestPage = 1\<rparr>,
      \<lparr>Rect = (24, 4454341506446131 / 8796093022208, 96, 4559894622712627 / 8796093022208),
        DestPage = 12\<rparr>]"
    by (simp only: n example_pageLinks)
  from example_allocation [of Some noPaths 1920 2560 ?wpt ?hpt ?links]
  obtain objs rest where al:
    "allocateChunks Some noPaths 1920 2560 ?wpt ?hpt ?links (blankPages 13) 0 3 =
       (?ids, \<lparr>objects = \<lparr>obj_id = 3,
                     obj_data = pageObjData 3 ?wpt ?hpt 4 (resourcesOf True 5 [] Map.empty)
                                  (annotsOf (?links 0))\<rparr> # objs\<rparr> # rest, 42)"
    by blast
  from assembleParts_layout [OF al]
  obtain chunks pw xs where
    rs: "resolveChunks ?ids (\<lparr>objects = \<lparr>obj_id = 3,
                     obj_data = pageObjData 3 ?wpt ?hpt 4 (resourcesOf True 5 [] Map.empty)
                                  (annotsOf (?links 0))\<rparr> # objs\<rparr> # rest) = Inr chunks"
    and parts: "assembleParts Some noPaths 1920 2560 300 linksToPages1And12 (blankPages 13) =
       Inr (?ids, chunks, 42 - 1, pw, xs)"
    by blast
  have "obj_data (hd (objects (hd chunks))) =
          resolvePlaceholders ?ids
            (pageObjData 3 ?wpt ?hpt 4 (resourcesOf True 5 [] Map.empty) (annotsOf (?links 0)))"
    using resolveChunks_hd [OF rs] by simp
  then have "obj_data (hd (objects (hd chunks))) =
       ''3 0 obj\<newline><< /Type /Page\<newline>   /Parent 2 0 R\<newline>   /MediaBox [0 0 460.80 614.40]\<newline>   /Contents 4 0 R\<newline>   /Resources << /XObject << /Im1 5 0 R >> >>\<newline>   /Annots [\<newline>     << /Type /Annot /Subtype /Link /Rect [24.00 554.40 96.00 566.40] /Border [0 0 0] /A << /S /GoTo /D [6 0 R /Fit] >> >>\<newline>     << /Type /Annot /Subtype /Link /Rect [24.00 506.40 96.00 518.40] /Border [0 0 0] /A << /S /GoTo /D [6 0 R2 /Fit] >> >>\<newline>   ]\<newline>>>\<newline>endobj\<newline>''"
    by (simp only: l0 example_points example_page_object example_resolution)
  with parts show ?thesis by blast
qed

end
